theory Spec2Isabelle
  imports Main "HOL-Library.Word"
begin

unbundle bit_operations_syntax

section \<open>Collectors\<close>

text \<open>
  A collector is a local object of \<^verbatim>\<open>signal::invoke\<close>: it is value-initialised, fed the
  return value of every slot that returns normally (\<^verbatim>\<open>operator ()\<close>), and asked for
  \<^verbatim>\<open>result()\<close> once the loop is over.  The structs \<^verbatim>\<open>minimum\<close>, \<^verbatim>\<open>maximum\<close> and
  \<^verbatim>\<open>first\<close> have the same two private members, \<^verbatim>\<open>current\<close> and \<^verbatim>\<open>has_value\<close>;
  \<^verbatim>\<open>last\<close> has only \<^verbatim>\<open>current\<close>; \<^verbatim>\<open>range\<close> has the list \<^verbatim>\<open>values\<close>.
  The value-initialised \<^verbatim>\<open>T{}\<close> of \<^verbatim>\<open>current\<close> is the parameter \<open>d\<close>.
\<close>

record 'a holder =
  current :: 'a
  has_value :: bool

record ('v, 'c, 'r) collector =
  coll_init :: 'c
  coll_call :: "'v \<Rightarrow> 'c \<Rightarrow> 'c"
  coll_result :: "'c \<Rightarrow> 'r"

definition minimum_call :: "'a::linorder \<Rightarrow> 'a holder \<Rightarrow> 'a holder" where
  "minimum_call v c =
     (if \<not> has_value c \<or> v < current c then c\<lparr>current := v, has_value := True\<rparr> else c)"

definition maximum_call :: "'a::linorder \<Rightarrow> 'a holder \<Rightarrow> 'a holder" where
  "maximum_call v c =
     (if \<not> has_value c \<or> v > current c then c\<lparr>current := v, has_value := True\<rparr> else c)"

definition first_call :: "'a \<Rightarrow> 'a holder \<Rightarrow> 'a holder" where
  "first_call v c = (if \<not> has_value c then c\<lparr>current := v, has_value := True\<rparr> else c)"

definition last_call :: "'a \<Rightarrow> 'a \<Rightarrow> 'a" where
  "last_call v c = v"

definition range_call :: "'a \<Rightarrow> 'a list \<Rightarrow> 'a list" where
  "range_call v values = values @ [v]"

definition minimum_collector :: "'a::linorder \<Rightarrow> ('a, 'a holder, 'a) collector" where
  "minimum_collector d =
     \<lparr>coll_init = \<lparr>current = d, has_value = False\<rparr>, coll_call = minimum_call,
      coll_result = current\<rparr>"

definition maximum_collector :: "'a::linorder \<Rightarrow> ('a, 'a holder, 'a) collector" where
  "maximum_collector d =
     \<lparr>coll_init = \<lparr>current = d, has_value = False\<rparr>, coll_call = maximum_call,
      coll_result = current\<rparr>"

definition first_collector :: "'a \<Rightarrow> ('a, 'a holder, 'a) collector" where
  "first_collector d =
     \<lparr>coll_init = \<lparr>current = d, has_value = False\<rparr>, coll_call = first_call,
      coll_result = current\<rparr>"

definition last_collector :: "'a \<Rightarrow> ('a, 'a, 'a) collector" where
  "last_collector d = \<lparr>coll_init = d, coll_call = last_call, coll_result = (\<lambda>c. c)\<rparr>"

definition range_collector :: "('a, 'a list, 'a list) collector" where
  "range_collector = \<lparr>coll_init = [], coll_call = range_call, coll_result = (\<lambda>values. values)\<rparr>"

text \<open>
  \<^verbatim>\<open>default_collector<T>\<close> is \<^verbatim>\<open>last<optional<T>>\<close>: its \<^verbatim>\<open>current\<close> starts as the empty
  optional, and the slot's return value is converted to an engaged optional at the call.
\<close>

definition default_collector :: "('a, 'a option, 'a option) collector" where
  "default_collector =
     \<lparr>coll_init = None, coll_call = (\<lambda>v. last_call (Some v)), coll_result = (\<lambda>c. c)\<rparr>"

text \<open>The collector fed a sequence of values, in order, and then asked for its result.\<close>

definition collect :: "('v, 'c, 'r) collector \<Rightarrow> 'v list \<Rightarrow> 'r" where
  "collect C vs = coll_result C (fold (coll_call C) vs (coll_init C))"

section \<open>Connection nodes and the signal's list\<close>

text \<open>
  The nodes (\<^verbatim>\<open>connection_base<thread_unsafe_policy>\<close>, and \<^verbatim>\<open>functional_connection\<close>
  which adds the member \<^verbatim>\<open>slot\<close>) live in a store addressed by natural numbers, one map
  per member: \<^verbatim>\<open>next\<close>, \<^verbatim>\<open>prev\<close>, \<^verbatim>\<open>is_blocked\<close> and \<^verbatim>\<open>slot\<close>.  A null
  \<^verbatim>\<open>intrusive_ptr\<close> is \<open>None\<close>.  \<^verbatim>\<open>new\<close> takes the address \<open>brk\<close> and increments it; a
  node is never freed while something refers to it, so the store never frees.  The store
  holds one signal, with its sentinels \<^verbatim>\<open>head\<close> and \<^verbatim>\<open>tail\<close>, and the members of
  \<^verbatim>\<open>thread_local_data\<close>.  The member \<open>trace\<close> is not in the source: it records, in
  order, every slot call as it starts (node and argument) and every node \<^verbatim>\<open>connect\<close>
  links (with whether it was linked as first slot).

  A slot is a callable of signature \<^verbatim>\<open>int(int)\<close>.  What it does to the signal is a list of
  library calls that may depend on the argument (\<open>body\<close>), and it returns \<open>ret\<close> of the
  argument unless it throws.
\<close>

type_synonym addr = nat

type_synonym connection_flags = "32 word"

definition direct_connection :: connection_flags where
  "direct_connection = 0"

definition queued_connection :: connection_flags where
  "queued_connection = push_bit 0 1"

definition connect_as_first_slot :: connection_flags where
  "connect_as_first_slot = push_bit 1 1"

datatype action =
    Connect connection_flags slot_type
  | Disconnect addr
  | DisconnectCurrent
  | Block addr
  | Unblock addr
  | AbortEmission
  | Invoke int
  | Clear
  | Throw
and slot_type = Slot (body: "int \<Rightarrow> action list") (ret: "int \<Rightarrow> int")

datatype fault = OutOfFuel | NullPointer | BadCast

datatype rocket_error = Invocation_slot_error | Bad_optional_access

datatype event = Called addr int | Connected addr bool

record state =
  c_next :: "addr \<Rightarrow> addr option"
  c_prev :: "addr \<Rightarrow> addr option"
  is_blocked :: "addr \<Rightarrow> bool"
  slot :: "addr \<Rightarrow> slot_type option"
  brk :: addr
  head :: addr
  tail :: addr
  current_connection :: "addr option"
  emission_aborted :: bool
  trace :: "event list"

text \<open>\<^verbatim>\<open>connection_base::is_connected\<close> and \<^verbatim>\<open>connection_base::disconnect\<close>.\<close>

definition is_connected :: "state \<Rightarrow> addr \<Rightarrow> bool" where
  "is_connected s a = (c_prev s a \<noteq> None)"

definition disconnect :: "addr \<Rightarrow> state \<Rightarrow> fault + state" where
  "disconnect a s =
     (if c_prev s a \<noteq> None then
        (case c_next s a of
           None \<Rightarrow> Inl NullPointer
         | Some n \<Rightarrow>
             let s1 = s\<lparr>c_prev := (c_prev s)(n := c_prev s a)\<rparr> in
             (case c_prev s1 a of
                None \<Rightarrow> Inl NullPointer
              | Some p \<Rightarrow>
                  let s2 = s1\<lparr>c_next := (c_next s1)(p := c_next s1 a)\<rparr> in
                  Inr (s2\<lparr>c_prev := (c_prev s2)(a := None)\<rparr>)))
      else Inr s)"

text \<open>
  A \<^verbatim>\<open>connection\<close> handle is its member \<^verbatim>\<open>base\<close>: the node's address, or null.
  \<^verbatim>\<open>connection::disconnect\<close> releases the handle, which nulls \<^verbatim>\<open>base\<close>.
\<close>

type_synonym connection = "addr option"

definition connection_is_connected :: "connection \<Rightarrow> state \<Rightarrow> bool" where
  "connection_is_connected c s = (case c of None \<Rightarrow> False | Some a \<Rightarrow> is_connected s a)"

definition connection_is_blocked :: "connection \<Rightarrow> state \<Rightarrow> bool" where
  "connection_is_blocked c s = (case c of None \<Rightarrow> False | Some a \<Rightarrow> is_blocked s a)"

definition connection_block :: "connection \<Rightarrow> state \<Rightarrow> state" where
  "connection_block c s =
     (case c of None \<Rightarrow> s | Some a \<Rightarrow> s\<lparr>is_blocked := (is_blocked s)(a := True)\<rparr>)"

definition connection_unblock :: "connection \<Rightarrow> state \<Rightarrow> state" where
  "connection_unblock c s =
     (case c of None \<Rightarrow> s | Some a \<Rightarrow> s\<lparr>is_blocked := (is_blocked s)(a := False)\<rparr>)"

definition connection_disconnect :: "connection \<Rightarrow> state \<Rightarrow> fault + connection \<times> state" where
  "connection_disconnect c s =
     (case c of
        None \<Rightarrow> Inr (None, s)
      | Some a \<Rightarrow> (case disconnect a s of Inl f \<Rightarrow> Inl f | Inr s' \<Rightarrow> Inr (None, s')))"

text \<open>\<^verbatim>\<open>signal::init\<close>, \<^verbatim>\<open>signal::make_link\<close> and \<^verbatim>\<open>signal::connect\<close>.\<close>

definition empty_store :: state where
  "empty_store =
     \<lparr>c_next = (\<lambda>_. None), c_prev = (\<lambda>_. None), is_blocked = (\<lambda>_. False),
      slot = (\<lambda>_. None), brk = 0, head = 0, tail = 0,
      current_connection = None, emission_aborted = False, trace = []\<rparr>"

definition new_connection_base :: "state \<Rightarrow> addr \<times> state" where
  "new_connection_base s =
     (brk s,
      s\<lparr>c_next := (c_next s)(brk s := None), c_prev := (c_prev s)(brk s := None),
        is_blocked := (is_blocked s)(brk s := False), slot := (slot s)(brk s := None),
        brk := Suc (brk s)\<rparr>)"

definition init :: "state \<Rightarrow> state" where
  "init s =
     (let (h, s1) = new_connection_base s;
          (t, s2) = new_connection_base s1;
          s3 = s2\<lparr>head := h, tail := t\<rparr>;
          s4 = s3\<lparr>c_next := (c_next s3)(head s3 \<mapsto> tail s3)\<rparr>
      in s4\<lparr>c_prev := (c_prev s4)(tail s4 \<mapsto> head s4)\<rparr>)"

definition make_link :: "addr option \<Rightarrow> slot_type \<Rightarrow> state \<Rightarrow> fault + addr \<times> state" where
  "make_link l sl s =
     (let (link, s0) = new_connection_base s;
          s1 = s0\<lparr>slot := (slot s0)(link \<mapsto> sl)\<rparr> in
      case l of
        None \<Rightarrow> Inl NullPointer
      | Some l \<Rightarrow>
          let s2 = s1\<lparr>c_prev := (c_prev s1)(link := c_prev s1 l)\<rparr>;
              s3 = s2\<lparr>c_next := (c_next s2)(link \<mapsto> l)\<rparr> in
          (case c_prev s3 link of
             None \<Rightarrow> Inl NullPointer
           | Some p \<Rightarrow>
               let s4 = s3\<lparr>c_next := (c_next s3)(p \<mapsto> link)\<rparr> in
               (case c_next s4 link of
                  None \<Rightarrow> Inl NullPointer
                | Some n \<Rightarrow> Inr (link, s4\<lparr>c_prev := (c_prev s4)(n \<mapsto> link)\<rparr>))))"

definition connect :: "slot_type \<Rightarrow> connection_flags \<Rightarrow> state \<Rightarrow> fault + connection \<times> state" where
  "connect sl flags s =
     (let first = (flags AND connect_as_first_slot \<noteq> 0) in
      case make_link (if first then c_next s (head s) else Some (tail s)) sl s of
        Inl f \<Rightarrow> Inl f
      | Inr (base, s') \<Rightarrow> Inr (Some base, s'\<lparr>trace := trace s' @ [Connected base first]\<rparr>))"

text \<open>
  \<^verbatim>\<open>signal::clear_without_lock\<close> and \<^verbatim>\<open>signal::clear\<close>.  The loop
  is given fuel: one unit for every node it passes.
\<close>

fun clear_loop :: "nat \<Rightarrow> addr option \<Rightarrow> state \<Rightarrow> fault + state" where
  "clear_loop 0 current' s = (if current' = Some (tail s) then Inr s else Inl OutOfFuel)"
| "clear_loop (Suc n) current' s =
     (if current' = Some (tail s) then Inr s
      else case current' of
        None \<Rightarrow> Inl NullPointer
      | Some c \<Rightarrow>
          let nxt = c_next s c;
              s1 = s\<lparr>c_next := (c_next s)(c \<mapsto> tail s)\<rparr>;
              s2 = s1\<lparr>c_prev := (c_prev s1)(c := None)\<rparr>
          in clear_loop n nxt s2)"

definition clear_without_lock :: "nat \<Rightarrow> state \<Rightarrow> fault + state" where
  "clear_without_lock n s =
     (case clear_loop n (c_next s (head s)) s of
        Inl f \<Rightarrow> Inl f
      | Inr s1 \<Rightarrow>
          let s2 = s1\<lparr>c_next := (c_next s1)(head s1 \<mapsto> tail s1)\<rparr>
          in Inr (s2\<lparr>c_prev := (c_prev s2)(tail s2 \<mapsto> head s2)\<rparr>))"

definition clear :: "nat \<Rightarrow> state \<Rightarrow> fault + state" where
  "clear n s = clear_without_lock n s"

section \<open>Emission\<close>

text \<open>
  The library calls a slot can make, \<^verbatim>\<open>signal::invoke\<close> among them, so the three functions
  are mutually recursive.  A slot may invoke the signal again and may connect new slots
  for ever, so the functions take fuel; \<^verbatim>\<open>invoke\<close>'s loop uses one unit for every node it
  passes.

  \<open>run_actions\<close> returns whether the slot threw.  \<open>invoke_loop\<close> carries the locals
  \<^verbatim>\<open>error\<close> and \<^verbatim>\<open>collector\<close> of \<^verbatim>\<open>invoke\<close>, and the list of the calls this emission
  made itself: the node, and the value the slot returned or \<open>None\<close> if it threw.
\<close>

definition do_action :: "nat \<Rightarrow> action \<Rightarrow> state \<Rightarrow> fault + state" where
  "do_action n a s =
     (case a of
        Connect flags sl \<Rightarrow>
          (case connect sl flags s of Inl f \<Rightarrow> Inl f | Inr (c, s') \<Rightarrow> Inr s')
      | Disconnect b \<Rightarrow>
          (case connection_disconnect (Some b) s of Inl f \<Rightarrow> Inl f | Inr (c, s') \<Rightarrow> Inr s')
      | DisconnectCurrent \<Rightarrow>
          (case connection_disconnect (current_connection s) s of
             Inl f \<Rightarrow> Inl f | Inr (c, s') \<Rightarrow> Inr s')
      | Block b \<Rightarrow> Inr (connection_block (Some b) s)
      | Unblock b \<Rightarrow> Inr (connection_unblock (Some b) s)
      | AbortEmission \<Rightarrow> Inr (s\<lparr>emission_aborted := True\<rparr>)
      | Clear \<Rightarrow> clear n s
      | _ \<Rightarrow> Inr s)"

type_synonym calls = "(addr \<times> int option) list"

function
  invoke :: "nat \<Rightarrow> (int, 'c, 'r) collector \<Rightarrow> int \<Rightarrow> state
     \<Rightarrow> fault + calls \<times> (rocket_error + 'r) \<times> state"
and invoke_loop :: "nat \<Rightarrow> (int, 'c, 'r) collector \<Rightarrow> int \<Rightarrow> addr option
     \<Rightarrow> bool \<times> 'c \<times> calls \<Rightarrow> state \<Rightarrow> fault + (bool \<times> 'c \<times> calls) \<times> state"
and run_actions :: "nat \<Rightarrow> (int, 'c, 'r) collector \<Rightarrow> action list \<Rightarrow> state
     \<Rightarrow> fault + bool \<times> state"
where
  "invoke n C v s =
     (let prev_aborted = emission_aborted s;
          s1 = s\<lparr>emission_aborted := False\<rparr> in
      case invoke_loop n C v (c_next s1 (head s1)) (False, coll_init C, []) s1 of
        Inl f \<Rightarrow> Inl f
      | Inr ((error, collector, cs), s2) \<Rightarrow>
          let s3 = s2\<lparr>emission_aborted := prev_aborted\<rparr> in
          if error then Inr (cs, Inl Invocation_slot_error, s3)
          else Inr (cs, Inr (coll_result C collector), s3))"
| "invoke_loop n C v current' (error, collector, cs) s =
     (if current' = Some (tail s) then Inr ((error, collector, cs), s)
      else case n of
        0 \<Rightarrow> Inl OutOfFuel
      | Suc m \<Rightarrow>
       (case current' of
          None \<Rightarrow> Inl NullPointer
        | Some c \<Rightarrow>
            if is_connected s c \<and> \<not> is_blocked s c then
              (let prev_connection = current_connection s;
                   s1 = s\<lparr>current_connection := Some c\<rparr> in
               case slot s1 c of
                 None \<Rightarrow> Inl BadCast
               | Some sl \<Rightarrow>
                  (case run_actions m C (body sl v) (s1\<lparr>trace := trace s1 @ [Called c v]\<rparr>) of
                     Inl f \<Rightarrow> Inl f
                   | Inr (thrown, s2) \<Rightarrow>
                       let error' = (error \<or> thrown);
                           collector' = (if thrown then collector
                                         else coll_call C (ret sl v) collector);
                           cs' = cs @ [(c, if thrown then None else Some (ret sl v))];
                           s3 = s2\<lparr>current_connection := prev_connection\<rparr> in
                       if emission_aborted s2 then Inr ((error', collector', cs'), s3)
                       else invoke_loop m C v (c_next s3 c) (error', collector', cs') s3))
            else invoke_loop m C v (c_next s c) (error, collector, cs) s))"
| "run_actions n C [] s = Inr (False, s)"
| "run_actions n C (a # as) s =
     (case a of
        Throw \<Rightarrow> Inr (True, s)
      | Invoke w \<Rightarrow>
          (case invoke n C w s of
             Inl f \<Rightarrow> Inl f
           | Inr (cs, Inl e, s') \<Rightarrow> Inr (True, s')
           | Inr (cs, Inr r, s') \<Rightarrow> run_actions n C as s')
      | _ \<Rightarrow>
          (case do_action n a s of
             Inl f \<Rightarrow> Inl f
           | Inr s' \<Rightarrow> run_actions n C as s'))"
  by pat_completeness auto
termination
  by (relation "inv_image (less_than <*lex*> less_than)
        (\<lambda>x. case x of
            Inl (n, C, v, s) \<Rightarrow> (n, Suc 0)
          | Inr (Inl (n, C, v, cur, acc, s)) \<Rightarrow> (n, 0)
          | Inr (Inr (n, C, acts, s)) \<Rightarrow> (n, Suc (Suc (length acts))))")
     auto

section \<open>The shape of the list\<close>

text \<open>
  \<open>links N P p xs t\<close>: following \<^verbatim>\<open>next\<close> from \<open>p\<close> passes exactly the nodes \<open>xs\<close> and
  arrives at \<open>t\<close>, and \<^verbatim>\<open>prev\<close> leads back node by node.  \<open>succs N cur ys t\<close>: the
  pointer \<open>cur\<close> and the \<^verbatim>\<open>next\<close> members lead through \<open>ys\<close> to \<open>t\<close>.
\<close>

fun links :: "(addr \<Rightarrow> addr option) \<Rightarrow> (addr \<Rightarrow> addr option) \<Rightarrow> addr \<Rightarrow> addr list \<Rightarrow> addr \<Rightarrow> bool" where
  "links N P p [] t = (N p = Some t \<and> P t = Some p)"
| "links N P p (x # xs) t = (N p = Some x \<and> P x = Some p \<and> links N P x xs t)"

fun succs :: "(addr \<Rightarrow> addr option) \<Rightarrow> addr option \<Rightarrow> addr list \<Rightarrow> addr \<Rightarrow> bool" where
  "succs N cur [] t = (cur = Some t)"
| "succs N cur (y # ys) t = (cur = Some y \<and> succs N (N y) ys t)"

text \<open>
  The invariant of a signal: between \<^verbatim>\<open>head\<close> and \<^verbatim>\<open>tail\<close> the connected nodes \<open>xs\<close>
  form a doubly linked list; every other node but \<^verbatim>\<open>tail\<close> has a null \<^verbatim>\<open>prev\<close>; the nodes
  of the list are allocated and hold a slot, the sentinels hold none; no \<^verbatim>\<open>next\<close> leads to
  \<^verbatim>\<open>head\<close>.
\<close>

definition sig_wf :: "state \<Rightarrow> addr list \<Rightarrow> bool" where
  "sig_wf s xs \<longleftrightarrow>
     distinct (head s # xs @ [tail s]) \<and>
     links (c_next s) (c_prev s) (head s) xs (tail s) \<and>
     c_prev s (head s) = None \<and> c_next s (tail s) = None \<and>
     (\<forall>a. a \<notin> set xs \<longrightarrow> a \<noteq> tail s \<longrightarrow> c_prev s a = None) \<and>
     (\<forall>a\<in>set xs. a < brk s \<and> slot s a \<noteq> None) \<and>
     head s < brk s \<and> tail s < brk s \<and> slot s (head s) = None \<and> slot s (tail s) = None \<and>
     (\<forall>a. c_next s a \<noteq> Some (head s))"

text \<open>The members of \<^verbatim>\<open>thread_local_data\<close> and the signal's sentinels are the same.\<close>

definition same_thread :: "state \<Rightarrow> state \<Rightarrow> bool" where
  "same_thread s s' \<longleftrightarrow>
     current_connection s' = current_connection s \<and> emission_aborted s' = emission_aborted s
     \<and> head s' = head s \<and> tail s' = tail s"

text \<open>
  \<open>evolves s s'\<close>: both states are well formed, with the same sentinels; no node of \<open>s\<close>
  that was disconnected is connected in \<open>s'\<close>; and the trace has grown by calls of nodes
  that were connected in \<open>s\<close> or did not exist yet.
\<close>

definition evolves :: "state \<Rightarrow> state \<Rightarrow> bool" where
  "evolves s s' \<longleftrightarrow>
     (\<exists>xs. sig_wf s xs) \<and> (\<exists>xs'. sig_wf s' xs')
   \<and> head s' = head s \<and> tail s' = tail s \<and> brk s \<le> brk s'
   \<and> (\<forall>a. a < brk s \<longrightarrow> \<not> is_connected s a \<longrightarrow> \<not> is_connected s' a)
   \<and> (\<exists>new. trace s' = trace s @ new
         \<and> (\<forall>a v. Called a v \<in> set new \<longrightarrow> is_connected s a \<or> brk s \<le> a))"

section \<open>Vocabulary for emissions\<close>

text \<open>
  A slot body made only of \<^verbatim>\<open>abort_emission()\<close> calls, ended or not by a throw, leaves the
  list alone; \<open>effect\<close> recognises such a body and tells whether it aborts the emission
  and whether it throws.  A list of nodes is \<open>tame\<close> for an argument when every slot has
  such a body there.  \<open>outcome\<close> is the entry a tame slot adds to the calls of an emission,
  and \<open>upto_abort\<close> cuts a list of nodes after the first that aborts.

  Of the calls of an emission, \<open>returned\<close> is the sequence of values the slots returned,
  \<open>raised\<close> says whether a slot threw, and \<open>feed\<close> is what the calls make of the locals
  \<^verbatim>\<open>error\<close> and \<^verbatim>\<open>collector\<close>.
\<close>

fun effect :: "action list \<Rightarrow> (bool \<times> bool) option" where
  "effect [] = Some (False, False)"
| "effect (Throw # as) = Some (False, True)"
| "effect (AbortEmission # as) = (case effect as of None \<Rightarrow> None | Some (ab, th) \<Rightarrow> Some (True, th))"
| "effect (a # as) = None"

definition slot_effect :: "(addr \<Rightarrow> slot_type option) \<Rightarrow> int \<Rightarrow> addr \<Rightarrow> (bool \<times> bool) option" where
  "slot_effect S v a = (case S a of None \<Rightarrow> None | Some sl \<Rightarrow> effect (body sl v))"

definition tame :: "(addr \<Rightarrow> slot_type option) \<Rightarrow> int \<Rightarrow> addr list \<Rightarrow> bool" where
  "tame S v ys = list_all (\<lambda>y. slot_effect S v y \<noteq> None) ys"

definition aborts :: "(addr \<Rightarrow> slot_type option) \<Rightarrow> int \<Rightarrow> addr \<Rightarrow> bool" where
  "aborts S v a = (case slot_effect S v a of Some (ab, th) \<Rightarrow> ab | None \<Rightarrow> False)"

definition throws :: "(addr \<Rightarrow> slot_type option) \<Rightarrow> int \<Rightarrow> addr \<Rightarrow> bool" where
  "throws S v a = (case slot_effect S v a of Some (ab, th) \<Rightarrow> th | None \<Rightarrow> False)"

definition outcome :: "(addr \<Rightarrow> slot_type option) \<Rightarrow> int \<Rightarrow> addr \<Rightarrow> addr \<times> int option" where
  "outcome S v a =
     (a, case S a of None \<Rightarrow> None | Some sl \<Rightarrow> if throws S v a then None else Some (ret sl v))"

fun upto_abort :: "(addr \<Rightarrow> bool) \<Rightarrow> addr list \<Rightarrow> addr list" where
  "upto_abort ab [] = []"
| "upto_abort ab (y # ys) = (if ab y then [y] else y # upto_abort ab ys)"

fun returned :: "calls \<Rightarrow> int list" where
  "returned [] = []"
| "returned ((a, None) # cs) = returned cs"
| "returned ((a, Some x) # cs) = x # returned cs"

definition raised :: "calls \<Rightarrow> bool" where
  "raised cs = list_ex (\<lambda>c. snd c = None) cs"

definition feed :: "(int, 'c, 'r) collector \<Rightarrow> calls \<Rightarrow> bool \<times> 'c \<times> calls \<Rightarrow> bool \<times> 'c \<times> calls" where
  "feed C new acc =
     (case acc of (error, collector, cs) \<Rightarrow>
        (error \<or> raised new, fold (coll_call C) (returned new) collector, cs @ new))"

section \<open>Concrete signals\<close>

text \<open>
  A freshly constructed signal, and the signal obtained from a state by connecting a list
  of slots in order with the default flags.  Scenario B of the specification: one slot
  \<open>x \<mapsto> x + 1\<close>.
\<close>

definition new_signal :: state where
  "new_signal = init empty_store"

fun connect_all :: "slot_type list \<Rightarrow> state \<Rightarrow> state" where
  "connect_all [] s = s"
| "connect_all (sl # sls) s =
     (case connect sl direct_connection s of Inl f \<Rightarrow> s | Inr (c, s') \<Rightarrow> connect_all sls s')"

definition scenario_B :: state where
  "scenario_B = connect_all [Slot (\<lambda>x. []) (\<lambda>x. x + 1)] new_signal"

text \<open>Three slots, the second of which throws.\<close>

definition scenario_T :: state where
  "scenario_T = connect_all [Slot (\<lambda>x. []) (\<lambda>x. x + 1), Slot (\<lambda>x. [Throw]) (\<lambda>x. x),
                              Slot (\<lambda>x. []) (\<lambda>x. 2 * x)] new_signal"

text \<open>Scenario D: a slot that disconnects itself.  And the three slots with the second disconnected.\<close>

definition scenario_D :: state where
  "scenario_D = connect_all [Slot (\<lambda>x. [DisconnectCurrent]) (\<lambda>x. x)] new_signal"

definition scenario_T3 :: state where
  "scenario_T3 = (case disconnect 3 scenario_T of Inl f \<Rightarrow> scenario_T | Inr s \<Rightarrow> s)"

text \<open>
  Scenario E: a slot that aborts the emission, then a second slot.  And three slots of
  which the first invokes the signal again with 1 when it is called with 0, and the second
  aborts the emission when it is called with 1.
\<close>

definition scenario_E :: state where
  "scenario_E = connect_all [Slot (\<lambda>x. [AbortEmission]) (\<lambda>x. x), Slot (\<lambda>x. []) (\<lambda>x. x)] new_signal"

definition scenario_N :: state where
  "scenario_N = connect_all
     [Slot (\<lambda>x. if x = 0 then [Invoke 1] else []) (\<lambda>x. x),
      Slot (\<lambda>x. if x = 1 then [AbortEmission] else []) (\<lambda>x. x),
      Slot (\<lambda>x. []) (\<lambda>x. x)] new_signal"

text \<open>
  The state in which the loop runs the slot of a node: \<^verbatim>\<open>connection_scope\<close> has made the node
  the current connection, and the call is on the trace.
\<close>

definition call_state :: "addr \<Rightarrow> int \<Rightarrow> state \<Rightarrow> state" where
  "call_state c v s = s\<lparr>current_connection := Some c, trace := trace s @ [Called c v]\<rparr>"

text \<open>A slot that aborts the emission and throws, then a second slot.\<close>

definition scenario_AT :: state where
  "scenario_AT = connect_all [Slot (\<lambda>x. [AbortEmission, Throw]) (\<lambda>x. x), Slot (\<lambda>x. []) (\<lambda>x. x)]
                   new_signal"



text \<open>
  A slot that, called with 0, invokes the signal with 1 and then disconnects itself; and
  the state after an emission with 0.
\<close>

definition scenario_R :: state where
  "scenario_R = connect_all
     [Slot (\<lambda>x. if x = 0 then [Invoke 1, DisconnectCurrent] else []) (\<lambda>x. x)] new_signal"

definition scenario_R1 :: state where
  "scenario_R1 =
     snd (snd (projr (invoke 3 (default_collector :: (int, int option, int option) collector) 0
                        scenario_R)))"




section \<open>The stable list\<close>

text \<open>
  \<^verbatim>\<open>stable_list<T>\<close> with its \<^verbatim>\<open>link_element\<close>s: one map for each member of a link (\<^verbatim>\<open>next\<close>,
  \<^verbatim>\<open>prev\<close>, the constructed value), the allocator's next fresh address, the two sentinels
  \<^verbatim>\<open>head\<close> and \<^verbatim>\<open>tail\<close>, and the counter \<^verbatim>\<open>elements\<close> of type \<^verbatim>\<open>std::size_t\<close>.  Links are
  reference counted and an iterator keeps its link alive, so no link is ever freed while an
  iterator to it exists: the model never frees.  An iterator is the pointer it holds.
\<close>

record 'a stable_list =
  l_next :: "addr \<Rightarrow> addr option"
  l_prev :: "addr \<Rightarrow> addr option"
  l_value :: "addr \<Rightarrow> 'a option"
  l_brk :: addr
  list_head :: addr
  list_tail :: addr
  elements :: "64 word"

type_synonym iterator = "addr option"

definition empty_list_store :: "'a stable_list" where
  "empty_list_store =
     \<lparr>l_next = (\<lambda>_. None), l_prev = (\<lambda>_. None), l_value = (\<lambda>_. None), l_brk = 0,
      list_head = 0, list_tail = 0, elements = 0\<rparr>"

definition new_link_element :: "'a stable_list \<Rightarrow> addr \<times> 'a stable_list" where
  "new_link_element l =
     (l_brk l,
      l\<lparr>l_next := (l_next l)(l_brk l := None), l_prev := (l_prev l)(l_brk l := None),
        l_value := (l_value l)(l_brk l := None), l_brk := Suc (l_brk l)\<rparr>)"

definition list_init :: "'a stable_list \<Rightarrow> 'a stable_list" where
  "list_init l =
     (let (h, l1) = new_link_element l;
          (t, l2) = new_link_element l1;
          l3 = l2\<lparr>list_head := h, list_tail := t\<rparr>;
          l4 = l3\<lparr>l_next := (l_next l3)(list_head l3 \<mapsto> list_tail l3)\<rparr>;
          l5 = l4\<lparr>l_prev := (l_prev l4)(list_tail l4 \<mapsto> list_head l4)\<rparr>
      in l5\<lparr>elements := 0\<rparr>)"

definition list_begin :: "'a stable_list \<Rightarrow> iterator" where
  "list_begin l = l_next l (list_head l)"

definition list_end :: "'a stable_list \<Rightarrow> iterator" where
  "list_end l = Some (list_tail l)"

definition list_size :: "'a stable_list \<Rightarrow> 64 word" where
  "list_size l = elements l"

text \<open>
  \<^verbatim>\<open>stable_list::make_link\<close>, and \<^verbatim>\<open>insert\<close>, \<^verbatim>\<open>emplace\<close>, \<^verbatim>\<open>push_front\<close>, \<^verbatim>\<open>push_back\<close> on top
  of it.  Dereferencing a null pointer is the fault \<open>NullPointer\<close>.
\<close>

definition list_make_link :: "addr option \<Rightarrow> 'a \<Rightarrow> 'a stable_list \<Rightarrow> fault + addr \<times> 'a stable_list" where
  "list_make_link l' v l =
     (let (link, l0) = new_link_element l;
          l1 = l0\<lparr>l_value := (l_value l0)(link \<mapsto> v)\<rparr> in
      case l' of
        None \<Rightarrow> Inl NullPointer
      | Some p \<Rightarrow>
          let l2 = l1\<lparr>l_prev := (l_prev l1)(link := l_prev l1 p)\<rparr>;
              l3 = l2\<lparr>l_next := (l_next l2)(link \<mapsto> p)\<rparr> in
          (case l_prev l3 link of
             None \<Rightarrow> Inl NullPointer
           | Some q \<Rightarrow>
               let l4 = l3\<lparr>l_next := (l_next l3)(q \<mapsto> link)\<rparr> in
               (case l_next l4 link of
                  None \<Rightarrow> Inl NullPointer
                | Some n \<Rightarrow>
                    let l5 = l4\<lparr>l_prev := (l_prev l4)(n \<mapsto> link)\<rparr>
                    in Inr (link, l5\<lparr>elements := elements l5 + 1\<rparr>))))"

definition list_insert :: "iterator \<Rightarrow> 'a \<Rightarrow> 'a stable_list \<Rightarrow> fault + iterator \<times> 'a stable_list" where
  "list_insert pos v l =
     (case list_make_link pos v l of Inl f \<Rightarrow> Inl f | Inr (link, l') \<Rightarrow> Inr (Some link, l'))"

definition list_emplace :: "iterator \<Rightarrow> 'a \<Rightarrow> 'a stable_list \<Rightarrow> fault + iterator \<times> 'a stable_list" where
  "list_emplace pos v l =
     (case list_make_link pos v l of Inl f \<Rightarrow> Inl f | Inr (link, l') \<Rightarrow> Inr (Some link, l'))"

definition push_front :: "'a \<Rightarrow> 'a stable_list \<Rightarrow> fault + 'a stable_list" where
  "push_front v l =
     (case list_insert (list_begin l) v l of Inl f \<Rightarrow> Inl f | Inr (it, l') \<Rightarrow> Inr l')"

definition push_back :: "'a \<Rightarrow> 'a stable_list \<Rightarrow> fault + 'a stable_list" where
  "push_back v l =
     (case list_insert (list_end l) v l of Inl f \<Rightarrow> Inl f | Inr (it, l') \<Rightarrow> Inr l')"

text \<open>\<^verbatim>\<open>pop_front\<close>, \<^verbatim>\<open>pop_back\<close> and \<^verbatim>\<open>erase(pos)\<close>: none of them looks at the link it unlinks.\<close>

definition pop_front :: "'a stable_list \<Rightarrow> fault + 'a stable_list" where
  "pop_front l =
     (case l_next l (list_head l) of
        None \<Rightarrow> Inl NullPointer
      | Some x \<Rightarrow>
          let l1 = l\<lparr>l_next := (l_next l)(list_head l := l_next l x)\<rparr> in
          (case l_next l1 (list_head l1) of
             None \<Rightarrow> Inl NullPointer
           | Some y \<Rightarrow>
               let l2 = l1\<lparr>l_prev := (l_prev l1)(y \<mapsto> list_head l1)\<rparr>
               in Inr (l2\<lparr>elements := elements l2 - 1\<rparr>)))"

definition pop_back :: "'a stable_list \<Rightarrow> fault + 'a stable_list" where
  "pop_back l =
     (case l_prev l (list_tail l) of
        None \<Rightarrow> Inl NullPointer
      | Some x \<Rightarrow>
          let l1 = l\<lparr>l_prev := (l_prev l)(list_tail l := l_prev l x)\<rparr> in
          (case l_prev l1 (list_tail l1) of
             None \<Rightarrow> Inl NullPointer
           | Some y \<Rightarrow>
               let l2 = l1\<lparr>l_next := (l_next l1)(y \<mapsto> list_tail l1)\<rparr>
               in Inr (l2\<lparr>elements := elements l2 - 1\<rparr>)))"

definition list_erase :: "iterator \<Rightarrow> 'a stable_list \<Rightarrow> fault + iterator \<times> 'a stable_list" where
  "list_erase pos l =
     (case pos of
        None \<Rightarrow> Inl NullPointer
      | Some p \<Rightarrow>
         (case l_prev l p of
            None \<Rightarrow> Inl NullPointer
          | Some q \<Rightarrow>
              let l1 = l\<lparr>l_next := (l_next l)(q := l_next l p)\<rparr> in
              (case l_next l1 p of
                 None \<Rightarrow> Inl NullPointer
               | Some n \<Rightarrow>
                   let l2 = l1\<lparr>l_prev := (l_prev l1)(n := l_prev l1 p)\<rparr>;
                       l3 = l2\<lparr>elements := elements l2 - 1\<rparr>
                   in Inr (l_next l3 p, l3))))"

text \<open>
  \<^verbatim>\<open>erase(first, last)\<close>: the loop \<^verbatim>\<open>while (link != last.element)\<close> with fuel, then the two
  assignments after it.  \<^verbatim>\<open>clear\<close> is \<^verbatim>\<open>erase(begin(), end())\<close>.
\<close>

fun erase_loop :: "nat \<Rightarrow> addr \<Rightarrow> iterator \<Rightarrow> addr option \<Rightarrow> 'a stable_list \<Rightarrow> fault + 'a stable_list" where
  "erase_loop 0 first last' link l = (if link = last' then Inr l else Inl OutOfFuel)"
| "erase_loop (Suc n) first last' link l =
     (if link = last' then Inr l
      else case link of
        None \<Rightarrow> Inl NullPointer
      | Some k \<Rightarrow>
          let nxt = l_next l k;
              l1 = l\<lparr>l_prev := (l_prev l)(k := l_prev l first)\<rparr>;
              l2 = l1\<lparr>l_next := (l_next l1)(k := last')\<rparr>;
              l3 = l2\<lparr>elements := elements l2 - 1\<rparr>
          in erase_loop n first last' nxt l3)"

definition list_erase_range :: "nat \<Rightarrow> iterator \<Rightarrow> iterator \<Rightarrow> 'a stable_list \<Rightarrow> fault + iterator \<times> 'a stable_list" where
  "list_erase_range n first last' l =
     (case first of
        None \<Rightarrow> Inl NullPointer
      | Some f \<Rightarrow>
         (case erase_loop n f last' first l of
            Inl e \<Rightarrow> Inl e
          | Inr l1 \<Rightarrow>
             (case l_prev l1 f of
                None \<Rightarrow> Inl NullPointer
              | Some q \<Rightarrow>
                  let l2 = l1\<lparr>l_next := (l_next l1)(q := last')\<rparr> in
                  (case last' of
                     None \<Rightarrow> Inl NullPointer
                   | Some e \<Rightarrow> Inr (last', l2\<lparr>l_prev := (l_prev l2)(e := l_prev l2 f)\<rparr>)))))"

definition list_clear :: "nat \<Rightarrow> 'a stable_list \<Rightarrow> fault + 'a stable_list" where
  "list_clear n l =
     (case list_erase_range n (list_begin l) (list_end l) l of
        Inl f \<Rightarrow> Inl f | Inr (it, l') \<Rightarrow> Inr l')"

text \<open>The mutating calls of the public interface, as data, and one call of one of them.\<close>

datatype 'a list_op =
    Push_front 'a
  | Push_back 'a
  | Insert iterator 'a
  | Emplace iterator 'a
  | Erase iterator
  | Erase_range iterator iterator
  | Clear
  | Pop_front
  | Pop_back

definition apply_op :: "nat \<Rightarrow> 'a list_op \<Rightarrow> 'a stable_list \<Rightarrow> fault + 'a stable_list" where
  "apply_op n op l =
     (case op of
        Push_front v \<Rightarrow> push_front v l
      | Push_back v \<Rightarrow> push_back v l
      | Insert pos v \<Rightarrow> (case list_insert pos v l of Inl f \<Rightarrow> Inl f | Inr (it, l') \<Rightarrow> Inr l')
      | Emplace pos v \<Rightarrow> (case list_emplace pos v l of Inl f \<Rightarrow> Inl f | Inr (it, l') \<Rightarrow> Inr l')
      | Erase pos \<Rightarrow> (case list_erase pos l of Inl f \<Rightarrow> Inl f | Inr (it, l') \<Rightarrow> Inr l')
      | Erase_range first last' \<Rightarrow>
          (case list_erase_range n first last' l of Inl f \<Rightarrow> Inl f | Inr (it, l') \<Rightarrow> Inr l')
      | Clear \<Rightarrow> list_clear n l
      | Pop_front \<Rightarrow> pop_front l
      | Pop_back \<Rightarrow> pop_back l)"

text \<open>
  The live nodes are those an iteration from \<^verbatim>\<open>begin()\<close> to \<^verbatim>\<open>end()\<close> visits, in that order.
\<close>

fun walk :: "nat \<Rightarrow> (addr \<Rightarrow> addr option) \<Rightarrow> addr option \<Rightarrow> addr \<Rightarrow> fault + addr list" where
  "walk 0 N cur t = (if cur = Some t then Inr [] else Inl OutOfFuel)"
| "walk (Suc n) N cur t =
     (if cur = Some t then Inr []
      else case cur of
        None \<Rightarrow> Inl NullPointer
      | Some c \<Rightarrow> (case walk n N (N c) t of Inl f \<Rightarrow> Inl f | Inr ys \<Rightarrow> Inr (c # ys)))"

definition live_nodes :: "nat \<Rightarrow> 'a stable_list \<Rightarrow> fault + addr list" where
  "live_nodes n l = walk n (l_next l) (list_begin l) (list_tail l)"

text \<open>
  The shape of a list whose live nodes are \<open>xs\<close>: a doubly linked segment from \<^verbatim>\<open>head\<close> to
  \<^verbatim>\<open>tail\<close> through \<open>xs\<close>, all allocated, and \<^verbatim>\<open>elements\<close> is their number as a \<^verbatim>\<open>size_t\<close>.
\<close>

definition list_wf :: "'a stable_list \<Rightarrow> addr list \<Rightarrow> bool" where
  "list_wf l xs \<longleftrightarrow>
     distinct (list_head l # xs @ [list_tail l]) \<and>
     links (l_next l) (l_prev l) (list_head l) xs (list_tail l) \<and>
     (\<forall>a\<in>set xs. a < l_brk l) \<and> list_head l < l_brk l \<and> list_tail l < l_brk l \<and>
     elements l = of_nat (length xs)"

text \<open>
  A call is made with iterators into the list: a position is a live node or \<^verbatim>\<open>end()\<close>, an
  erased iterator is a live node, a range is a live node or \<^verbatim>\<open>end()\<close> and an iterator that is
  reached from it, and \<^verbatim>\<open>pop_front\<close>, \<^verbatim>\<open>pop_back\<close> are called on a list that is not empty.
\<close>

definition op_ok :: "'a stable_list \<Rightarrow> addr list \<Rightarrow> 'a list_op \<Rightarrow> bool" where
  "op_ok l xs op =
     (case op of
        Push_front v \<Rightarrow> True
      | Push_back v \<Rightarrow> True
      | Insert pos v \<Rightarrow> pos \<in> Some ` set (xs @ [list_tail l])
      | Emplace pos v \<Rightarrow> pos \<in> Some ` set (xs @ [list_tail l])
      | Erase pos \<Rightarrow> pos \<in> Some ` set xs
      | Erase_range first last' \<Rightarrow>
          (case (first, last') of
             (Some f, Some e) \<Rightarrow>
               f \<in> set (xs @ [list_tail l]) \<and>
               e \<in> set (dropWhile (\<lambda>x. x \<noteq> f) (xs @ [list_tail l]))
           | _ \<Rightarrow> False)
      | Clear \<Rightarrow> True
      | Pop_front \<Rightarrow> xs \<noteq> []
      | Pop_back \<Rightarrow> xs \<noteq> [])"

text \<open>The lists that such calls make from the empty list.\<close>

inductive reachable :: "'a stable_list \<Rightarrow> bool" where
  init: "reachable (list_init empty_list_store)"
| step: "reachable l \<Longrightarrow> live_nodes n l = Inr xs \<Longrightarrow> op_ok l xs op \<Longrightarrow> apply_op n op l = Inr l'
         \<Longrightarrow> reachable l'"

definition insertion :: "'a list_op \<Rightarrow> bool" where
  "insertion op =
     (case op of Push_front v \<Rightarrow> True | Push_back v \<Rightarrow> True | Insert pos v \<Rightarrow> True
      | Emplace pos v \<Rightarrow> True | _ \<Rightarrow> False)"

definition erasure :: "'a list_op \<Rightarrow> bool" where
  "erasure op =
     (case op of Erase pos \<Rightarrow> True | Pop_front \<Rightarrow> True | Pop_back \<Rightarrow> True | _ \<Rightarrow> False)"

definition scenario_L2 :: "int stable_list" where
  "scenario_L2 = projr (push_back 20 (projr (push_back 10 (list_init empty_list_store))))"

definition scenario_L1 :: "int stable_list" where
  "scenario_L1 = snd (projr (list_erase (list_begin scenario_L2) scenario_L2))"

definition scenario_L0 :: "int stable_list" where
  "scenario_L0 = snd (projr (list_erase (list_begin scenario_L2) scenario_L1))"

text \<open>Two values pushed on an empty list, and the first of them erased once and twice.\<close>

definition scenario_L :: "int stable_list" where
  "scenario_L = projr (push_back 10 (list_init empty_list_store))"


section \<open>Collector results\<close>

lemma fold_first_call:
  "current (fold first_call vs c) = (if has_value c \<or> vs = [] then current c else hd vs)"
  "has_value (fold first_call vs c) = (has_value c \<or> vs \<noteq> [])"
  by (induction vs arbitrary: c) (auto simp: first_call_def)

lemma fold_last_call: "fold last_call vs c = (if vs = [] then c else last vs)"
  by (induction vs arbitrary: c) (auto simp: last_call_def)

lemma fold_range_call: "fold range_call vs acc = acc @ vs"
  by (induction vs arbitrary: acc) (auto simp: range_call_def)

lemma fold_minimum_call:
  "has_value c \<Longrightarrow> current (fold minimum_call vs c) = fold min vs (current c)"
proof (induction vs arbitrary: c)
  case Nil
  then show ?case by simp
next
  case (Cons v vs)
  have hv: "has_value (minimum_call v c)"
    using Cons.prems by (simp add: minimum_call_def)
  have cur: "current (minimum_call v c) = min v (current c)"
    using Cons.prems by (auto simp: minimum_call_def min_def)
  show ?case using Cons.IH[OF hv] cur by simp
qed

lemma fold_maximum_call:
  "has_value c \<Longrightarrow> current (fold maximum_call vs c) = fold max vs (current c)"
proof (induction vs arbitrary: c)
  case Nil
  then show ?case by simp
next
  case (Cons v vs)
  have hv: "has_value (maximum_call v c)"
    using Cons.prems by (simp add: maximum_call_def)
  have cur: "current (maximum_call v c) = max v (current c)"
    using Cons.prems by (auto simp: maximum_call_def max_def)
  show ?case using Cons.IH[OF hv] cur by simp
qed

lemma collect_minimum_Cons: "collect (minimum_collector d) (v # vs) = Min (set (v # vs))"
proof -
  have "collect (minimum_collector d) (v # vs)
      = current (fold minimum_call vs \<lparr>current = v, has_value = True\<rparr>)"
    by (simp add: collect_def minimum_collector_def minimum_call_def)
  also have "\<dots> = fold min vs v"
    by (simp add: fold_minimum_call)
  finally show ?thesis by (simp only: Min.set_eq_fold)
qed

lemma collect_maximum_Cons: "collect (maximum_collector d) (v # vs) = Max (set (v # vs))"
proof -
  have "collect (maximum_collector d) (v # vs)
      = current (fold maximum_call vs \<lparr>current = v, has_value = True\<rparr>)"
    by (simp add: collect_def maximum_collector_def maximum_call_def)
  also have "\<dots> = fold max vs v"
    by (simp add: fold_maximum_call)
  finally show ?thesis by (simp only: Max.set_eq_fold)
qed

lemma collect_first: "collect (first_collector d) vs = (if vs = [] then d else hd vs)"
  by (simp add: collect_def first_collector_def fold_first_call)

lemma collect_last: "collect (last_collector d) vs = (if vs = [] then d else last vs)"
  by (simp add: collect_def last_collector_def fold_last_call)

lemma collect_range: "collect range_collector vs = vs"
  by (simp add: collect_def range_collector_def fold_range_call)

text \<open>
  C6.  Fed a sequence of slot return values in emission order, \<^verbatim>\<open>first\<close> returns its
  first value, \<^verbatim>\<open>last\<close> its last value, \<^verbatim>\<open>minimum\<close> its least and \<^verbatim>\<open>maximum\<close> its
  greatest value (the sequence being non-empty, so that these values exist), and
  \<^verbatim>\<open>range\<close> returns the whole sequence in order (also when it is empty).
\<close>

theorem collectors_results:
  fixes vs :: "'a::linorder list"
  assumes "vs \<noteq> []"
  shows "collect (first_collector d) vs = hd vs
       \<and> collect (last_collector d) vs = last vs
       \<and> collect (minimum_collector d) vs = Min (set vs)
       \<and> collect (maximum_collector d) vs = Max (set vs)
       \<and> collect range_collector vs = vs
       \<and> collect range_collector ([] :: 'a list) = []"
proof -
  obtain v ws where vs: "vs = v # ws"
    using assms by (cases vs) auto
  show ?thesis
    unfolding vs collect_minimum_Cons collect_maximum_Cons collect_first collect_last collect_range
    by simp
qed

theorem collectors_results_witness:
  "[3, 1, 2 :: int] \<noteq> []
     \<and> collect (first_collector 0) [3, 1, 2 :: int] = 3
     \<and> collect (last_collector 0) [3, 1, 2 :: int] = 2
     \<and> collect (minimum_collector 0) [3, 1, 2 :: int] = 1
     \<and> collect (maximum_collector 0) [3, 1, 2 :: int] = 3
     \<and> collect range_collector [3, 1, 2 :: int] = [3, 1, 2]"
  using collectors_results [of "[3, 1, 2 :: int]" 0] by simp

section \<open>The list operations keep the invariant\<close>

lemma links_append:
  "links N P p (xs @ y # ys) t = (links N P p xs y \<and> links N P y ys t)"
  by (induction xs arbitrary: p) auto

lemma links_snoc:
  "links N P p (xs @ [x]) t = (links N P p xs x \<and> N x = Some t \<and> P t = Some x)"
  by (induction xs arbitrary: p) auto

lemma links_next_upd:
  "a \<noteq> p \<Longrightarrow> a \<notin> set xs \<Longrightarrow> links (N(a := v)) P p xs t = links N P p xs t"
  by (induction xs arbitrary: p) auto

lemma links_prev_upd:
  "a \<noteq> t \<Longrightarrow> a \<notin> set xs \<Longrightarrow> links N (P(a := v)) p xs t = links N P p xs t"
  by (induction xs arbitrary: p) auto

lemma links_prev_last: "links N P p xs t \<Longrightarrow> P t = Some (last (p # xs))"
  by (induction xs arbitrary: p) auto

lemma links_next_hd: "links N P p xs t \<Longrightarrow> N p = Some (hd (xs @ [t]))"
  by (cases xs) auto

lemma links_succs: "links N P p xs t \<Longrightarrow> succs N (N p) xs t"
  by (induction xs arbitrary: p) auto

lemma links_prev_Some: "links N P p xs t \<Longrightarrow> a \<in> set xs \<Longrightarrow> P a \<noteq> None"
  by (induction xs arbitrary: p) auto

lemma succs_upd: "a \<notin> set ys \<Longrightarrow> succs (N(a := v)) cur ys t = succs N cur ys t"
  by (induction ys arbitrary: cur) auto

lemma links_retarget_aux:
  "links N P p xs t \<Longrightarrow> distinct (p # xs) \<Longrightarrow> l \<notin> set (p # xs) \<Longrightarrow> q = last (p # xs)
   \<Longrightarrow> links (N(q \<mapsto> l)) (P(l \<mapsto> q)) p xs l"
proof (induction xs arbitrary: p)
  case Nil
  then show ?case by simp
next
  case (Cons x xs)
  have q: "q = last (x # xs)" using Cons.prems(4) by simp
  from Cons.prems q have IH: "links (N(q \<mapsto> l)) (P(l \<mapsto> q)) x xs l"
    by (intro Cons.IH) auto
  have "q \<in> set (x # xs)" unfolding q by (rule last_in_set) simp
  with Cons.prems(2) have pq: "p \<noteq> q" by auto
  from Cons.prems(3) have lx: "l \<noteq> x" by simp
  from Cons.prems(1) have "N p = Some x" "P x = Some p" by simp_all
  with pq lx IH show ?case unfolding links.simps by (intro conjI) simp_all
qed

lemma links_retarget:
  "links N P p xs t \<Longrightarrow> distinct (p # xs) \<Longrightarrow> l \<notin> set (p # xs)
   \<Longrightarrow> links (N(last (p # xs) \<mapsto> l)) (P(l \<mapsto> last (p # xs))) p xs l"
  by (rule links_retarget_aux) auto

lemma links_restart:
  "links N P p xs t \<Longrightarrow> distinct (xs @ [t]) \<Longrightarrow> l \<notin> set xs \<Longrightarrow> l \<noteq> t
   \<Longrightarrow> links (N(l \<mapsto> hd (xs @ [t]))) (P(hd (xs @ [t]) \<mapsto> l)) l xs t"
  by (cases xs) (auto simp: links_next_upd links_prev_upd)

lemma last_in_Cons: "last (p # xs) \<in> set (p # xs)"
  by (rule last_in_set) simp

lemma hd_in_snoc: "hd (xs @ [t]) \<in> set (xs @ [t])"
  by (rule hd_in_set) simp

lemma connect_back:
  assumes wf: "sig_wf s xs" and fl: "flags AND connect_as_first_slot = 0"
  shows "\<exists>s'. connect sl flags s = Inr (Some (brk s), s') \<and> sig_wf s' (xs @ [brk s])
           \<and> slot s' = (slot s)(brk s \<mapsto> sl) \<and> is_blocked s' = (is_blocked s)(brk s := False)
           \<and> brk s' = Suc (brk s) \<and> same_thread s s'
           \<and> trace s' = trace s @ [Connected (brk s) False]"
proof -
  define l where "l = brk s"
  define q where "q = last (head s # xs)"
  from wf have lk: "links (c_next s) (c_prev s) (head s) xs (tail s)"
    and dist: "distinct (head s # xs @ [tail s])"
    and lt: "\<forall>a\<in>set xs. a < brk s" "head s < brk s" "tail s < brk s"
    by (auto simp: sig_wf_def)
  have pt: "c_prev s (tail s) = Some q" unfolding q_def by (rule links_prev_last[OF lk])
  have qin: "q \<in> set (head s # xs)" unfolding q_def by (rule last_in_Cons)
  have fresh: "l \<notin> set (head s # xs)" "l \<noteq> tail s" using lt by (auto simp: l_def)
  have ql: "q \<noteq> l" using qin fresh by metis
  have qt: "q \<noteq> tail s" using qin dist by auto
  have r: "links ((c_next s)(q \<mapsto> l)) ((c_prev s)(l \<mapsto> q)) (head s) xs l"
    unfolding q_def using links_retarget[OF lk _ fresh(1)] dist by simp
  define s' where "s' = s\<lparr>c_next := (c_next s)(l \<mapsto> tail s, q \<mapsto> l),
     c_prev := (c_prev s)(l \<mapsto> q, tail s \<mapsto> l),
     is_blocked := (is_blocked s)(l := False), slot := (slot s)(l \<mapsto> sl), brk := Suc l,
     trace := trace s @ [Connected l False]\<rparr>"
  have c: "connect sl flags s = Inr (Some l, s')"
    using fl pt fresh ql qt
    by (simp add: connect_def make_link_def new_connection_base_def s'_def Let_def fun_upd_twist
          l_def[symmetric])
  have "links ((c_next s)(q \<mapsto> l, l \<mapsto> tail s)) ((c_prev s)(l \<mapsto> q, tail s \<mapsto> l)) (head s) xs l"
    using r fresh dist by (simp add: links_next_upd links_prev_upd)
  then have l1: "links (c_next s') (c_prev s') (head s') xs l"
    using ql by (simp add: s'_def fun_upd_twist)
  have w: "sig_wf s' (xs @ [l])"
    unfolding sig_wf_def
  proof (intro conjI)
    show "distinct (head s' # (xs @ [l]) @ [tail s'])" using dist fresh by (auto simp: s'_def)
    show "links (c_next s') (c_prev s') (head s') (xs @ [l]) (tail s')"
      unfolding links_snoc using l1 ql by (simp add: s'_def)
    show "c_prev s' (head s') = None" using wf fresh dist by (auto simp: s'_def sig_wf_def)
    show "c_next s' (tail s') = None" using wf fresh qt by (auto simp: s'_def sig_wf_def)
    show "\<forall>a. a \<notin> set (xs @ [l]) \<longrightarrow> a \<noteq> tail s' \<longrightarrow> c_prev s' a = None"
      using wf by (auto simp: s'_def sig_wf_def)
    show "\<forall>a\<in>set (xs @ [l]). a < brk s' \<and> slot s' a \<noteq> None"
      using wf by (auto simp: s'_def sig_wf_def l_def)
    show "head s' < brk s'" "tail s' < brk s'" using lt by (auto simp: s'_def l_def)
    show "slot s' (head s') = None" "slot s' (tail s') = None"
      using wf fresh by (auto simp: s'_def sig_wf_def)
    show "\<forall>a. c_next s' a \<noteq> Some (head s')"
      using wf fresh dist by (auto simp: s'_def sig_wf_def)
  qed
  show ?thesis using c w unfolding l_def[symmetric]
    by (intro exI[of _ s']) (simp add: s'_def same_thread_def)
qed


lemma connect_as_first_and [simp]:
  "connect_as_first_slot AND connect_as_first_slot \<noteq> 0"
  "direct_connection AND connect_as_first_slot = 0"
  by (simp_all add: connect_as_first_slot_def direct_connection_def)

lemma links_prev_hd: "links N P p xs t \<Longrightarrow> P (hd (xs @ [t])) = Some p"
  by (cases xs) auto

lemma connect_front:
  assumes wf: "sig_wf s xs" and fl: "flags AND connect_as_first_slot \<noteq> 0"
  shows "\<exists>s'. connect sl flags s = Inr (Some (brk s), s') \<and> sig_wf s' (brk s # xs)
           \<and> slot s' = (slot s)(brk s \<mapsto> sl) \<and> is_blocked s' = (is_blocked s)(brk s := False)
           \<and> brk s' = Suc (brk s) \<and> same_thread s s'
           \<and> trace s' = trace s @ [Connected (brk s) True]
           \<and> (\<forall>a. a \<noteq> head s \<longrightarrow> a \<noteq> brk s \<longrightarrow> c_next s' a = c_next s a)"
proof -
  define l where "l = brk s"
  define h where "h = hd (xs @ [tail s])"
  from wf have lk: "links (c_next s) (c_prev s) (head s) xs (tail s)"
    and dist: "distinct (head s # xs @ [tail s])"
    and lt: "\<forall>a\<in>set xs. a < brk s" "head s < brk s" "tail s < brk s"
    by (auto simp: sig_wf_def)
  have nh: "c_next s (head s) = Some h" unfolding h_def by (rule links_next_hd[OF lk])
  have ph: "c_prev s h = Some (head s)" unfolding h_def by (rule links_prev_hd[OF lk])
  have hin: "h \<in> set (xs @ [tail s])" unfolding h_def by (rule hd_in_snoc)
  have fresh: "l \<notin> set xs" "l \<noteq> tail s" "l \<noteq> head s" using lt by (auto simp: l_def)
  have hl: "h \<noteq> l" using hin fresh by auto
  have hh: "h \<noteq> head s" using hin dist by auto
  have r: "links ((c_next s)(l \<mapsto> h)) ((c_prev s)(h \<mapsto> l)) l xs (tail s)"
    unfolding h_def using links_restart[OF lk _ fresh(1,2)] dist by simp
  define s' where "s' = s\<lparr>c_next := (c_next s)(l \<mapsto> h, head s \<mapsto> l),
     c_prev := (c_prev s)(l \<mapsto> head s, h \<mapsto> l),
     is_blocked := (is_blocked s)(l := False), slot := (slot s)(l \<mapsto> sl), brk := Suc l,
     trace := trace s @ [Connected l True]\<rparr>"
  have c: "connect sl flags s = Inr (Some l, s')"
    using fl nh ph fresh hl hh
    by (simp add: connect_def make_link_def new_connection_base_def s'_def Let_def fun_upd_twist
          l_def[symmetric])
  have "links ((c_next s)(l \<mapsto> h, head s \<mapsto> l)) ((c_prev s)(h \<mapsto> l, l \<mapsto> head s)) l xs (tail s)"
    using r fresh dist by (simp add: links_next_upd links_prev_upd)
  then have l1: "links (c_next s') (c_prev s') l xs (tail s')"
    using hl by (simp add: s'_def fun_upd_twist)
  have w: "sig_wf s' (l # xs)"
    unfolding sig_wf_def
  proof (intro conjI)
    show "distinct (head s' # (l # xs) @ [tail s'])" using dist fresh by (auto simp: s'_def)
    show "links (c_next s') (c_prev s') (head s') (l # xs) (tail s')"
      using l1 hl by (simp add: s'_def)
    show "c_prev s' (head s') = None" using wf fresh hh by (auto simp: s'_def sig_wf_def)
    show "c_next s' (tail s') = None" using wf fresh dist by (auto simp: s'_def sig_wf_def)
    show "\<forall>a. a \<notin> set (l # xs) \<longrightarrow> a \<noteq> tail s' \<longrightarrow> c_prev s' a = None"
      using wf hin by (auto simp: s'_def sig_wf_def)
    show "\<forall>a\<in>set (l # xs). a < brk s' \<and> slot s' a \<noteq> None"
      using wf by (auto simp: s'_def sig_wf_def l_def)
    show "head s' < brk s'" "tail s' < brk s'" using lt by (auto simp: s'_def l_def)
    show "slot s' (head s') = None" "slot s' (tail s') = None"
      using wf fresh by (auto simp: s'_def sig_wf_def)
    show "\<forall>a. c_next s' a \<noteq> Some (head s')"
      using wf fresh hh by (auto simp: s'_def sig_wf_def)
  qed
  show ?thesis using c w unfolding l_def[symmetric]
    by (intro exI[of _ s']) (simp add: s'_def same_thread_def)
qed

lemma disconnect_dead: "\<not> is_connected s a \<Longrightarrow> disconnect a s = Inr s"
  by (simp add: disconnect_def is_connected_def)

lemma disconnect_live:
  assumes wf: "sig_wf s (us @ a # vs)"
  shows "\<exists>s'. disconnect a s = Inr s' \<and> sig_wf s' (us @ vs)
           \<and> slot s' = slot s \<and> is_blocked s' = is_blocked s \<and> brk s' = brk s
           \<and> same_thread s s' \<and> trace s' = trace s \<and> c_next s' a = Some (hd (vs @ [tail s]))
           \<and> (\<forall>b. b \<noteq> last (head s # us) \<longrightarrow> c_next s' b = c_next s b)"
proof -
  define p where "p = last (head s # us)"
  define n where "n = hd (vs @ [tail s])"
  from wf have lk: "links (c_next s) (c_prev s) (head s) (us @ a # vs) (tail s)"
    and dist: "distinct (head s # (us @ a # vs) @ [tail s])"
    by (auto simp: sig_wf_def)
  from lk have lk1: "links (c_next s) (c_prev s) (head s) us a"
    and lk2: "links (c_next s) (c_prev s) a vs (tail s)"
    by (simp_all add: links_append)
  have pa: "c_prev s a = Some p" unfolding p_def by (rule links_prev_last[OF lk1])
  have na: "c_next s a = Some n" unfolding n_def by (rule links_next_hd[OF lk2])
  have pin: "p \<in> set (head s # us)" unfolding p_def by (rule last_in_Cons)
  have nin: "n \<in> set (vs @ [tail s])" unfolding n_def by (rule hd_in_snoc)
  have ne: "n \<noteq> a" "p \<noteq> a" "n \<noteq> p" "n \<notin> set (head s # us)" "p \<notin> set (vs @ [tail s])"
    using pin nin dist by auto
  define s' where "s' = s\<lparr>c_next := (c_next s)(p \<mapsto> n), c_prev := (c_prev s)(n \<mapsto> p, a := None)\<rparr>"
  have c: "disconnect a s = Inr s'"
    using pa na ne by (simp add: disconnect_def s'_def Let_def)
  have r: "links ((c_next s)(p \<mapsto> n)) ((c_prev s)(n \<mapsto> p)) (head s) us n"
    unfolding p_def using links_retarget[OF lk1 _ ne(4)] dist by simp
  have r1: "links (c_next s') (c_prev s') (head s') us n"
    using r dist ne by (simp add: s'_def links_prev_upd)
  have w: "sig_wf s' (us @ vs)"
    unfolding sig_wf_def
  proof (intro conjI)
    show "distinct (head s' # (us @ vs) @ [tail s'])" using dist by (auto simp: s'_def)
    show "links (c_next s') (c_prev s') (head s') (us @ vs) (tail s')"
    proof (cases vs)
      case Nil
      then show ?thesis using r1 by (simp add: n_def s'_def)
    next
      case (Cons w ws)
      then have nw: "n = w" by (simp add: n_def)
      from lk2 Cons have "links (c_next s) (c_prev s) w ws (tail s)" by simp
      moreover have "p \<noteq> w" "p \<notin> set ws" "w \<noteq> tail s" "w \<notin> set ws" "a \<noteq> tail s" "a \<notin> set ws"
        using ne dist Cons nw by auto
      ultimately have "links (c_next s') (c_prev s') w ws (tail s')"
        by (simp add: s'_def links_next_upd links_prev_upd nw)
      with r1 show ?thesis unfolding Cons links_append nw by simp
    qed
    show "c_prev s' (head s') = None" using wf ne dist by (auto simp: s'_def sig_wf_def)
    show "c_next s' (tail s') = None" using wf ne by (auto simp: s'_def sig_wf_def)
    show "\<forall>b. b \<notin> set (us @ vs) \<longrightarrow> b \<noteq> tail s' \<longrightarrow> c_prev s' b = None"
      using wf nin by (auto simp: s'_def sig_wf_def)
    show "\<forall>b\<in>set (us @ vs). b < brk s' \<and> slot s' b \<noteq> None"
      using wf by (auto simp: s'_def sig_wf_def)
    show "head s' < brk s'" "tail s' < brk s'" using wf by (auto simp: s'_def sig_wf_def)
    show "slot s' (head s') = None" "slot s' (tail s') = None"
      using wf by (auto simp: s'_def sig_wf_def)
    show "\<forall>b. c_next s' b \<noteq> Some (head s')"
      using wf nin dist by (auto simp: s'_def sig_wf_def)
  qed
  show ?thesis using c w na ne unfolding p_def[symmetric] n_def[symmetric]
    by (intro exI[of _ s']) (simp add: s'_def same_thread_def)
qed

lemma clear_loop_tail [simp]: "clear_loop n (Some (tail s)) s = Inr s"
  by (cases n) simp_all

lemma clear_loop_succs:
  "succs (c_next s) cur ys (tail s) \<Longrightarrow> distinct (ys @ [tail s]) \<Longrightarrow> length ys \<le> n \<Longrightarrow>
   clear_loop n cur s =
     Inr (s\<lparr>c_next := (\<lambda>a. if a \<in> set ys then Some (tail s) else c_next s a),
            c_prev := (\<lambda>a. if a \<in> set ys then None else c_prev s a)\<rparr>)"
proof (induction ys arbitrary: n cur s)
  case Nil
  then show ?case by simp
next
  case (Cons y ys)
  from Cons.prems obtain m where n: "n = Suc m" and m: "length ys \<le> m"
    by (cases n) auto
  define s2 where "s2 = s\<lparr>c_next := (c_next s)(y \<mapsto> tail s), c_prev := (c_prev s)(y := None)\<rparr>"
  from Cons.prems have cur: "cur = Some y" and yt: "y \<noteq> tail s" and yn: "y \<notin> set ys"
    and sc: "succs (c_next s) (c_next s y) ys (tail s)" and d: "distinct (ys @ [tail s])"
    by auto
  have "succs (c_next s2) (c_next s y) ys (tail s2)"
    using sc yn by (simp add: s2_def succs_upd)
  moreover have "distinct (ys @ [tail s2])" using d by (simp add: s2_def)
  ultimately have "clear_loop m (c_next s y) s2 =
     Inr (s2\<lparr>c_next := (\<lambda>a. if a \<in> set ys then Some (tail s2) else c_next s2 a),
            c_prev := (\<lambda>a. if a \<in> set ys then None else c_prev s2 a)\<rparr>)"
    using m by (rule Cons.IH)
  moreover have "clear_loop n cur s = clear_loop m (c_next s y) s2"
    using cur yt by (simp add: n s2_def Let_def)
  ultimately show ?case by (simp add: s2_def fun_eq_iff)
qed

lemma clear_wf:
  assumes wf: "sig_wf s xs" and n: "length xs \<le> n"
  shows "\<exists>s'. clear n s = Inr s' \<and> sig_wf s' []
           \<and> slot s' = slot s \<and> is_blocked s' = is_blocked s \<and> brk s' = brk s
           \<and> same_thread s s' \<and> trace s' = trace s
           \<and> (\<forall>a. a \<noteq> head s \<longrightarrow> c_next s' a = (if a \<in> set xs then Some (tail s) else c_next s a))"
proof -
  from wf have lk: "links (c_next s) (c_prev s) (head s) xs (tail s)"
    and dist: "distinct (head s # xs @ [tail s])"
    by (auto simp: sig_wf_def)
  define s1 where "s1 = s\<lparr>c_next := (\<lambda>a. if a \<in> set xs then Some (tail s) else c_next s a),
            c_prev := (\<lambda>a. if a \<in> set xs then None else c_prev s a)\<rparr>"
  have "clear_loop n (c_next s (head s)) s = Inr s1"
    unfolding s1_def using links_succs[OF lk] dist n by (intro clear_loop_succs) auto
  then have c: "clear n s =
      Inr (s1\<lparr>c_next := (c_next s1)(head s \<mapsto> tail s), c_prev := (c_prev s1)(tail s \<mapsto> head s)\<rparr>)"
    by (simp add: clear_def clear_without_lock_def Let_def s1_def)
  show ?thesis unfolding c using wf
    by (auto simp: sig_wf_def s1_def same_thread_def)
qed


section \<open>The emission loop\<close>

lemma returned_append: "returned (cs @ ds) = returned cs @ returned ds"
  by (induction cs rule: returned.induct) auto

lemma raised_append: "raised (cs @ ds) = (raised cs \<or> raised ds)"
  by (simp add: raised_def)

lemma feed_Nil [simp]: "feed C [] acc = acc"
  by (cases acc) (simp add: feed_def raised_def)

lemma feed_append: "feed C (cs @ ds) acc = feed C ds (feed C cs acc)"
  by (cases acc) (auto simp: feed_def returned_append raised_append)

lemma feed_Cons: "feed C (c # cs) acc = feed C cs (feed C [c] acc)"
  using feed_append[of C "[c]" cs acc] by simp

lemma feed_single:
  "feed C [(c, r)] (e, co, cs) =
     (e \<or> r = None, (case r of None \<Rightarrow> co | Some x \<Rightarrow> coll_call C x co), cs @ [(c, r)])"
  by (cases r) (simp_all add: feed_def raised_def)

lemma invoke_loop_tail: "invoke_loop n C v (Some (tail s)) acc s = Inr (acc, s)"
  by (cases acc) simp

lemma invoke_loop_0: "cur \<noteq> Some (tail s) \<Longrightarrow> invoke_loop 0 C v cur acc s = Inl OutOfFuel"
  by (cases acc) simp

lemma invoke_loop_null: "invoke_loop (Suc m) C v None acc s = Inl NullPointer"
  by (cases acc) simp

lemma invoke_loop_skip:
  "c \<noteq> tail s \<Longrightarrow> \<not> (is_connected s c \<and> \<not> is_blocked s c)
   \<Longrightarrow> invoke_loop (Suc m) C v (Some c) acc s = invoke_loop m C v (c_next s c) acc s"
  by (cases acc) auto

lemma invoke_loop_call:
  "c \<noteq> tail s \<Longrightarrow> is_connected s c \<Longrightarrow> \<not> is_blocked s c \<Longrightarrow> slot s c = Some sl
   \<Longrightarrow> invoke_loop (Suc m) C v (Some c) acc s =
     (case run_actions m C (body sl v)
             (s\<lparr>current_connection := Some c, trace := trace s @ [Called c v]\<rparr>) of
        Inl f \<Rightarrow> Inl f
      | Inr (thrown, s2) \<Rightarrow>
          let acc' = feed C [(c, if thrown then None else Some (ret sl v))] acc;
              s3 = s2\<lparr>current_connection := current_connection s\<rparr>
          in if emission_aborted s2 then Inr (acc', s3)
             else invoke_loop m C v (c_next s3 c) acc' s3)"
  by (cases acc) (auto simp: Let_def feed_single split: sum.splits)

lemma invoke_loop_nocast:
  "c \<noteq> tail s \<Longrightarrow> is_connected s c \<Longrightarrow> \<not> is_blocked s c \<Longrightarrow> slot s c = None
   \<Longrightarrow> invoke_loop (Suc m) C v (Some c) acc s = Inl BadCast"
  by (cases acc) (auto simp: Let_def)

declare invoke_loop.simps [simp del] invoke.simps [simp del]

lemma run_actions_effect:
  "effect acts = Some (ab, th)
   \<Longrightarrow> run_actions n C acts s = Inr (th, s\<lparr>emission_aborted := emission_aborted s \<or> ab\<rparr>)"
proof (induction acts arbitrary: s ab th rule: effect.induct)
  case 1
  then show ?case by simp
next
  case (2 as)
  then show ?case by simp
next
  case (3 as)
  then show ?case by (auto simp: do_action_def split: option.splits)
qed simp_all

lemma invoke_loop_call_tame:
  assumes "c \<noteq> tail s" "is_connected s c" "\<not> is_blocked s c"
    and eff: "slot_effect (slot s) v c = Some (ab, th)" and na: "\<not> emission_aborted s"
  shows "invoke_loop (Suc m) C v (Some c) acc s =
     (let acc' = feed C [outcome (slot s) v c] acc;
          s' = s\<lparr>trace := trace s @ [Called c v]\<rparr>
      in if ab then Inr (acc', s'\<lparr>emission_aborted := True\<rparr>)
         else invoke_loop m C v (c_next s c) acc' s')"
proof -
  from eff obtain sl where sl: "slot s c = Some sl" and e: "effect (body sl v) = Some (ab, th)"
    by (auto simp: slot_effect_def split: option.splits)
  have o: "outcome (slot s) v c = (c, if th then None else Some (ret sl v))"
    using sl e by (simp add: outcome_def throws_def slot_effect_def)
  have s: "s\<lparr>trace := trace s @ [Called c v], emission_aborted := False\<rparr>
         = s\<lparr>trace := trace s @ [Called c v]\<rparr>"
    using na by simp
  show ?thesis
    unfolding invoke_loop_call[OF assms(1-3) sl] run_actions_effect[OF e] o
    using na by (cases ab) (simp_all add: Let_def s)
qed

lemma invoke_loop_tame:
  "succs (c_next s) cur ys t \<Longrightarrow> tail s \<notin> set ys \<Longrightarrow> \<forall>y\<in>set ys. is_connected s y
   \<Longrightarrow> tame (slot s) v ys \<Longrightarrow> \<not> emission_aborted s \<Longrightarrow>
   invoke_loop (length ys + n) C v cur acc s =
     (let ex = upto_abort (aborts (slot s) v) (filter (\<lambda>y. \<not> is_blocked s y) ys);
          acc' = feed C (map (outcome (slot s) v) ex) acc;
          s' = s\<lparr>trace := trace s @ map (\<lambda>y. Called y v) ex\<rparr>
      in if list_ex (aborts (slot s) v) ex then Inr (acc', s'\<lparr>emission_aborted := True\<rparr>)
         else invoke_loop n C v (Some t) acc' s')"
proof (induction ys arbitrary: cur acc s)
  case Nil
  then show ?case by simp
next
  case (Cons y ys)
  from Cons.prems have cur: "cur = Some y" and yt: "y \<noteq> tail s" and con: "is_connected s y"
    and sc: "succs (c_next s) (c_next s y) ys t" by auto
  from Cons.prems(4) obtain ab th where eff: "slot_effect (slot s) v y = Some (ab, th)"
    by (auto simp: tame_def)
  then have ab: "aborts (slot s) v y = ab" by (simp add: aborts_def)
  show ?case
  proof (cases "is_blocked s y")
    case True
    have "invoke_loop (length (y # ys) + n) C v cur acc s
        = invoke_loop (length ys + n) C v (c_next s y) acc s"
      unfolding cur using invoke_loop_skip[OF yt, of "length ys + n" C v acc] True by simp
    also have "\<dots> = (let ex = upto_abort (aborts (slot s) v) (filter (\<lambda>y. \<not> is_blocked s y) ys);
          acc' = feed C (map (outcome (slot s) v) ex) acc;
          s' = s\<lparr>trace := trace s @ map (\<lambda>y. Called y v) ex\<rparr>
      in if list_ex (aborts (slot s) v) ex then Inr (acc', s'\<lparr>emission_aborted := True\<rparr>)
         else invoke_loop n C v (Some t) acc' s')"
      using Cons.prems by (intro Cons.IH[OF sc]) (auto simp: tame_def)
    finally show ?thesis using True by simp
  next
    case False
    define acc1 where "acc1 = feed C [outcome (slot s) v y] acc"
    define s1 where "s1 = s\<lparr>trace := trace s @ [Called y v]\<rparr>"
    have step: "invoke_loop (length (y # ys) + n) C v cur acc s =
       (if ab then Inr (acc1, s1\<lparr>emission_aborted := True\<rparr>)
        else invoke_loop (length ys + n) C v (c_next s y) acc1 s1)"
      unfolding cur acc1_def s1_def
      using invoke_loop_call_tame[OF yt con False eff Cons.prems(5), of "length ys + n" C acc]
      by (simp add: Let_def)
    show ?thesis
    proof (cases ab)
      case True
      then show ?thesis using step False ab by (simp add: acc1_def s1_def)
    next
      case nab: False
      have "invoke_loop (length ys + n) C v (c_next s1 y) acc1 s1 =
        (let ex = upto_abort (aborts (slot s1) v) (filter (\<lambda>y. \<not> is_blocked s1 y) ys);
          acc' = feed C (map (outcome (slot s1) v) ex) acc1;
          s' = s1\<lparr>trace := trace s1 @ map (\<lambda>y. Called y v) ex\<rparr>
         in if list_ex (aborts (slot s1) v) ex then Inr (acc', s'\<lparr>emission_aborted := True\<rparr>)
            else invoke_loop n C v (Some t) acc' s')"
        using Cons.prems sc by (intro Cons.IH) (auto simp: s1_def tame_def is_connected_def)
      moreover have "\<And>ex. feed C (outcome (slot s) v y # map (outcome (slot s) v) ex) acc
          = feed C (map (outcome (slot s) v) ex) acc1"
        unfolding acc1_def by (rule feed_Cons)
      ultimately show ?thesis using step nab False ab
        by (simp add: s1_def Let_def)
    qed
  qed
qed

lemma sig_wf_connected: "sig_wf s xs \<Longrightarrow> a \<in> set xs \<Longrightarrow> is_connected s a"
  unfolding sig_wf_def is_connected_def using links_prev_Some by blast

lemma sig_wf_connected_iff: "sig_wf s xs \<Longrightarrow> a \<noteq> tail s \<Longrightarrow> is_connected s a = (a \<in> set xs)"
  using sig_wf_connected[of s xs a] by (auto simp: sig_wf_def is_connected_def)

lemma invoke_tame:
  assumes wf: "sig_wf s xs" and t: "tame (slot s) v xs"
  defines "ex \<equiv> upto_abort (aborts (slot s) v) (filter (\<lambda>y. \<not> is_blocked s y) xs)"
  shows "invoke (length xs + n) C v s =
     Inr (map (outcome (slot s) v) ex,
          (if raised (map (outcome (slot s) v) ex) then Inl Invocation_slot_error
           else Inr (collect C (returned (map (outcome (slot s) v) ex)))),
          s\<lparr>trace := trace s @ map (\<lambda>y. Called y v) ex\<rparr>)"
proof -
  define s0 where "s0 = s\<lparr>emission_aborted := False\<rparr>"
  from wf have lk: "links (c_next s) (c_prev s) (head s) xs (tail s)"
    and dist: "distinct (head s # xs @ [tail s])" by (auto simp: sig_wf_def)
  have sc: "succs (c_next s0) (c_next s0 (head s0)) xs (tail s0)"
    using links_succs[OF lk] by (simp add: s0_def)
  have con: "\<forall>y\<in>set xs. is_connected s0 y"
    using sig_wf_connected[OF wf] by (simp add: s0_def is_connected_def)
  have L: "invoke_loop (length xs + n) C v (c_next s0 (head s0)) (False, coll_init C, []) s0 =
     (let ex = upto_abort (aborts (slot s0) v) (filter (\<lambda>y. \<not> is_blocked s0 y) xs);
          acc' = feed C (map (outcome (slot s0) v) ex) (False, coll_init C, []);
          s' = s0\<lparr>trace := trace s0 @ map (\<lambda>y. Called y v) ex\<rparr>
      in if list_ex (aborts (slot s0) v) ex then Inr (acc', s'\<lparr>emission_aborted := True\<rparr>)
         else invoke_loop n C v (Some (tail s0)) acc' s')"
    using dist t by (intro invoke_loop_tame[OF sc _ con]) (auto simp: s0_def)
  have tl: "\<And>acc' tr. invoke_loop n C v (Some (tail s0)) acc' (s0\<lparr>trace := tr\<rparr>)
      = Inr (acc', s0\<lparr>trace := tr\<rparr>)"
    using invoke_loop_tail[of n C v "s0\<lparr>trace := tr\<rparr>" for tr] by simp
  show ?thesis
    unfolding invoke.simps[of "length xs + n" C v s] Let_def s0_def[symmetric] L tl
    by (simp add: s0_def ex_def feed_def collect_def)
qed

lemma invoke_loop_feed:
  "invoke_loop n C v cur acc s = Inr (acc', s') \<Longrightarrow> \<exists>new. acc' = feed C new acc"
proof (induction n arbitrary: cur acc s)
  case 0
  then show ?case
    by (cases "cur = Some (tail s)") (auto simp: invoke_loop_tail invoke_loop_0 intro: exI[of _ "[]"])
next
  case (Suc m)
  show ?case
  proof (cases "cur = Some (tail s)")
    case True
    with Suc.prems show ?thesis by (auto simp: invoke_loop_tail intro: exI[of _ "[]"])
  next
    case nt: False
    show ?thesis
    proof (cases cur)
      case None
      with Suc.prems show ?thesis by (simp add: invoke_loop_null)
    next
      case (Some c)
      with nt have ct: "c \<noteq> tail s" by simp
      show ?thesis
      proof (cases "is_connected s c \<and> \<not> is_blocked s c")
        case False
        with Suc.prems Some ct have "invoke_loop m C v (c_next s c) acc s = Inr (acc', s')"
          by (simp add: invoke_loop_skip)
        then show ?thesis by (rule Suc.IH)
      next
        case True
        then have con: "is_connected s c" and nb: "\<not> is_blocked s c" by simp_all
        show ?thesis
        proof (cases "slot s c")
          case None
          with Suc.prems Some ct con nb show ?thesis by (simp add: invoke_loop_nocast)
        next
          case sl: (Some sl)
          note eq = invoke_loop_call[OF ct con nb sl, of m C v acc]
          from Suc.prems[unfolded Some eq] obtain thrown s2 where
            r: "run_actions m C (body sl v)
                  (s\<lparr>current_connection := Some c, trace := trace s @ [Called c v]\<rparr>) = Inr (thrown, s2)"
            by (auto split: sum.splits)
          define acc1 where "acc1 = feed C [(c, if thrown then None else Some (ret sl v))] acc"
          show ?thesis
          proof (cases "emission_aborted s2")
            case True
            with Suc.prems[unfolded Some eq] r have "acc' = acc1"
              by (simp add: Let_def acc1_def)
            then show ?thesis unfolding acc1_def by blast
          next
            case False
            with Suc.prems[unfolded Some eq] r
            have "invoke_loop m C v (c_next (s2\<lparr>current_connection := current_connection s\<rparr>) c) acc1
                    (s2\<lparr>current_connection := current_connection s\<rparr>) = Inr (acc', s')"
              by (simp add: Let_def acc1_def)
            then obtain new where "acc' = feed C new acc1" using Suc.IH by blast
            then have "acc' = feed C ([(c, if thrown then None else Some (ret sl v))] @ new) acc"
              unfolding acc1_def feed_append by simp
            then show ?thesis by blast
          qed
        qed
      qed
    qed
  qed
qed

lemma invoke_outcome:
  assumes "invoke n C v s = Inr (cs, r, s')"
  shows "r = (if raised cs then Inl Invocation_slot_error else Inr (collect C (returned cs)))"
proof -
  from assms obtain error collector s2 where
    L: "invoke_loop n C v (c_next s (head s)) (False, coll_init C, []) (s\<lparr>emission_aborted := False\<rparr>)
          = Inr ((error, collector, cs), s2)"
    and r: "r = (if error then Inl Invocation_slot_error else Inr (coll_result C collector))"
    by (auto simp: invoke.simps Let_def split: sum.splits if_splits)
  from invoke_loop_feed[OF L] obtain new where
    "(error, collector, cs) = feed C new (False, coll_init C, [])" by blast
  then have "cs = new" "error = raised new" "collector = fold (coll_call C) (returned new) (coll_init C)"
    by (simp_all add: feed_def)
  then show ?thesis using r by (simp add: collect_def)
qed

lemma invoke_aborted:
  "invoke n C v s = Inr (cs, r, s') \<Longrightarrow> emission_aborted s' = emission_aborted s"
  by (auto simp: invoke.simps Let_def split: sum.splits if_splits)


section \<open>Emissions over slots that leave the list alone\<close>

lemma upto_abort_none: "\<forall>y\<in>set ys. \<not> ab y \<Longrightarrow> upto_abort ab ys = ys"
  by (induction ys) auto


lemma tame_slot: "tame S v ys \<Longrightarrow> y \<in> set ys \<Longrightarrow> \<exists>sl. S y = Some sl"
  by (auto simp: tame_def list_all_iff slot_effect_def split: option.splits)

lemma raised_outcome:
  "tame S v ys \<Longrightarrow> raised (map (outcome S v) ys) = (\<exists>y\<in>set ys. throws S v y)"
proof (induction ys)
  case Nil
  then show ?case by (simp add: raised_def)
next
  case (Cons y ys)
  from Cons.prems obtain sl where "S y = Some sl" using tame_slot[of S v "y # ys" y] by auto
  then have "(snd (outcome S v y) = None) = throws S v y" by (simp add: outcome_def)
  moreover have "tame S v ys" using Cons.prems by (simp add: tame_def)
  ultimately show ?case using Cons.IH by (simp add: raised_def)
qed

lemma sig_wf_cong:
  "c_next s' = c_next s \<Longrightarrow> c_prev s' = c_prev s \<Longrightarrow> slot s' = slot s \<Longrightarrow> brk s' = brk s
   \<Longrightarrow> head s' = head s \<Longrightarrow> tail s' = tail s \<Longrightarrow> sig_wf s' xs = sig_wf s xs"
  by (simp add: sig_wf_def)

lemma returned_not_raised:
  "\<not> raised cs \<Longrightarrow> cs \<noteq> [] \<Longrightarrow> returned cs \<noteq> [] \<and> snd (last cs) = Some (last (returned cs))"
proof (induction cs rule: returned.induct)
  case 1
  then show ?case by simp
next
  case (2 a cs)
  then show ?case by (simp add: raised_def)
next
  case (3 a x cs)
  then show ?case by (cases cs) (auto simp: raised_def)
qed

lemma collect_default:
  "collect default_collector vs = (if vs = [] then None else Some (last vs))"
  by (simp add: collect_def default_collector_def fold_last_call comp_def last_call_def)
     (induction vs rule: rev_induct, auto simp: last_call_def)

lemma new_signal_wf: "sig_wf new_signal []"
  by (simp add: new_signal_def init_def new_connection_base_def empty_store_def sig_wf_def Let_def)

lemma new_signal_simps [simp]:
  "brk new_signal = 2" "head new_signal = 0" "tail new_signal = 1"
  "trace new_signal = []" "emission_aborted new_signal = False"
  "current_connection new_signal = None" "is_blocked new_signal = (\<lambda>_. False)"
  by (simp_all add: new_signal_def init_def new_connection_base_def empty_store_def Let_def fun_eq_iff)

lemma connect_all_wf:
  "sig_wf s xs \<Longrightarrow>
     sig_wf (connect_all sls s) (xs @ [brk s ..< brk s + length sls])
   \<and> brk (connect_all sls s) = brk s + length sls
   \<and> same_thread s (connect_all sls s)
   \<and> (\<forall>a. slot (connect_all sls s) a =
         (if brk s \<le> a \<and> a < brk s + length sls then Some (sls ! (a - brk s)) else slot s a))
   \<and> (\<forall>a. is_blocked (connect_all sls s) a = (if brk s \<le> a \<and> a < brk s + length sls then False else is_blocked s a))"
proof (induction sls arbitrary: s xs)
  case Nil
  then show ?case by (auto simp: same_thread_def)
next
  case (Cons sl sls)
  from connect_back[OF Cons.prems, of direct_connection sl] obtain s' where
    c: "connect sl direct_connection s = Inr (Some (brk s), s')" and wf': "sig_wf s' (xs @ [brk s])"
    and sl: "slot s' = (slot s)(brk s \<mapsto> sl)" and bl: "is_blocked s' = (is_blocked s)(brk s := False)"
    and brk: "brk s' = Suc (brk s)" and st: "same_thread s s'"
    by auto
  have up: "[brk s ..< brk s + length (sl # sls)] = brk s # [Suc (brk s) ..< Suc (brk s) + length sls]"
    by (simp add: upt_rec)
  from Cons.IH[OF wf'] st show ?case
    unfolding connect_all.simps c up by (auto simp: brk sl bl same_thread_def nth_Cons')
qed

declare connect_all.simps [simp del]


lemma upto_abort_subset: "set (upto_abort ab ys) \<subseteq> set ys"
  by (induction ys) auto

lemma scenario_B_facts:
  "sig_wf scenario_B [2]" "tame (slot scenario_B) v [2]"
  "outcome (slot scenario_B) v 2 = (2, Some (v + 1))" "\<not> is_blocked scenario_B 2"
  "\<not> aborts (slot scenario_B) v 2" "\<not> throws (slot scenario_B) v 2"
  using connect_all_wf[OF new_signal_wf, of "[Slot (\<lambda>x. []) (\<lambda>x. x + 1)]"]
  by (auto simp: scenario_B_def upt_rec tame_def slot_effect_def outcome_def throws_def aborts_def)

lemma scenario_B_invoke:
  "invoke (Suc n) C v scenario_B =
     Inr ([(2, Some (v + 1))], Inr (collect C [v + 1]), scenario_B\<lparr>trace := trace scenario_B @ [Called 2 v]\<rparr>)"
  using invoke_tame[OF scenario_B_facts(1,2), where n=n and C=C and v=v]
  by (simp add: scenario_B_facts raised_def)

text \<open>
  C7.  Under the default collector an emission that returns, returns the empty optional
  when it called no slot, and otherwise an optional holding the value the last slot it
  called returned.  When the slots leave the list alone and none throws, the emission does
  return.  A signal with the one slot \<open>x \<mapsto> x + 1\<close>, invoked with 41, returns an optional
  holding 42.
\<close>

theorem default_collector_invoke:
  "(invoke n default_collector v s = Inr (cs, Inr r, s') \<longrightarrow>
      (cs = [] \<longrightarrow> r = None) \<and> (cs \<noteq> [] \<longrightarrow> r \<noteq> None \<and> r = snd (last cs)))
   \<and> (sig_wf s xs \<and> tame (slot s) v xs \<and> (\<forall>y\<in>set xs. \<not> is_blocked s y \<longrightarrow> \<not> throws (slot s) v y) \<longrightarrow>
        (\<exists>cs r s'. invoke (length xs + k) default_collector v s = Inr (cs, Inr r, s')))
   \<and> invoke 1 default_collector 41 scenario_B =
        Inr ([(2, Some 42)], Inr (Some 42), scenario_B\<lparr>trace := trace scenario_B @ [Called 2 41]\<rparr>)"
proof -
  have p1: "(cs = [] \<longrightarrow> r = None) \<and> (cs \<noteq> [] \<longrightarrow> r \<noteq> None \<and> r = snd (last cs))"
    if a: "invoke n default_collector v s = Inr (cs, Inr r, s')"
  proof -
    from invoke_outcome[OF a] have nr: "\<not> raised cs"
      and r: "r = collect default_collector (returned cs)"
      by (auto split: if_splits)
    show ?thesis using returned_not_raised[OF nr] r by (simp add: collect_default)
  qed
  have p2: "\<exists>cs r s'. invoke (length xs + k) default_collector v s = Inr (cs, Inr r, s')"
    if wf: "sig_wf s xs" and t: "tame (slot s) v xs"
      and nt: "\<forall>y\<in>set xs. \<not> is_blocked s y \<longrightarrow> \<not> throws (slot s) v y"
  proof -
    define ex where "ex = upto_abort (aborts (slot s) v) (filter (\<lambda>y. \<not> is_blocked s y) xs)"
    have "set ex \<subseteq> set (filter (\<lambda>y. \<not> is_blocked s y) xs)"
      unfolding ex_def by (rule upto_abort_subset)
    then have "tame (slot s) v ex" "\<forall>y\<in>set ex. \<not> throws (slot s) v y"
      using t nt by (auto simp: tame_def list_all_iff)
    then have "\<not> raised (map (outcome (slot s) v) ex)"
      by (simp add: raised_outcome)
    then show ?thesis
      using invoke_tame[OF wf t, where n=k and C=default_collector] unfolding ex_def by simp
  qed
  have p3: "invoke 1 default_collector 41 scenario_B =
        Inr ([(2, Some 42)], Inr (Some 42), scenario_B\<lparr>trace := trace scenario_B @ [Called 2 41]\<rparr>)"
    using scenario_B_invoke[of 0 default_collector 41] by (simp add: collect_default)
  show ?thesis using p1 p2 p3 by blast
qed

theorem default_collector_invoke_witness:
  "invoke 1 default_collector 41 scenario_B =
        Inr ([(2, Some 42)], Inr (Some 42), scenario_B\<lparr>trace := trace scenario_B @ [Called 2 41]\<rparr>)
   \<and> [(2 :: addr, Some (42 :: int))] \<noteq> [] \<and> Some (42 :: int) = snd (last [(2 :: addr, Some (42 :: int))])
   \<and> sig_wf scenario_B [2] \<and> tame (slot scenario_B) 41 [2]
   \<and> \<not> throws (slot scenario_B) 41 2"
  using default_collector_invoke[where n=1 and v=41 and s=scenario_B and cs="[(2, Some 42)]"
      and r="Some 42" and s'="scenario_B\<lparr>trace := trace scenario_B @ [Called 2 41]\<rparr>"
      and xs="[2]" and k=0]
    scenario_B_facts
  by simp


lemma scenario_T_facts:
  "sig_wf scenario_T [2, 3, 4]" "tame (slot scenario_T) v [2, 3, 4]"
  "outcome (slot scenario_T) v 2 = (2, Some (v + 1))"
  "outcome (slot scenario_T) v 3 = (3, None)"
  "outcome (slot scenario_T) v 4 = (4, Some (2 * v))"
  "\<not> is_blocked scenario_T 2" "\<not> is_blocked scenario_T 3" "\<not> is_blocked scenario_T 4"
  "\<not> aborts (slot scenario_T) v 2" "\<not> aborts (slot scenario_T) v 3" "\<not> aborts (slot scenario_T) v 4"
  "\<not> throws (slot scenario_T) v 2" "throws (slot scenario_T) v 3" "\<not> throws (slot scenario_T) v 4"
  "head scenario_T = 0" "tail scenario_T = 1"
  using connect_all_wf[OF new_signal_wf, of "[Slot (\<lambda>x. []) (\<lambda>x. x + 1), Slot (\<lambda>x. [Throw]) (\<lambda>x. x),
                              Slot (\<lambda>x. []) (\<lambda>x. 2 * x)]"]
  by (auto simp: scenario_T_def upt_rec tame_def slot_effect_def outcome_def throws_def aborts_def
        same_thread_def)

lemma raised_iff: "raised cs = (\<exists>c\<in>set cs. snd c = None)"
  by (simp add: raised_def list_ex_iff)

lemma invoke_tame_no_abort:
  assumes wf: "sig_wf s xs" and t: "tame (slot s) v xs"
    and na: "\<forall>y\<in>set xs. \<not> aborts (slot s) v y"
  shows "invoke (length xs + k) C v s =
     Inr (map (outcome (slot s) v) (filter (\<lambda>y. \<not> is_blocked s y) xs),
          (if \<exists>y\<in>set xs. \<not> is_blocked s y \<and> throws (slot s) v y then Inl Invocation_slot_error
           else Inr (collect C (returned (map (outcome (slot s) v) (filter (\<lambda>y. \<not> is_blocked s y) xs))))),
          s\<lparr>trace := trace s @ map (\<lambda>y. Called y v) (filter (\<lambda>y. \<not> is_blocked s y) xs)\<rparr>)"
proof -
  have u: "upto_abort (aborts (slot s) v) (filter (\<lambda>y. \<not> is_blocked s y) xs)
         = filter (\<lambda>y. \<not> is_blocked s y) xs"
    using na by (intro upto_abort_none) simp
  have "tame (slot s) v (filter (\<lambda>y. \<not> is_blocked s y) xs)"
    using t by (simp add: tame_def list_all_iff)
  then have r: "raised (map (outcome (slot s) v) (filter (\<lambda>y. \<not> is_blocked s y) xs))
      = (\<exists>y\<in>set xs. \<not> is_blocked s y \<and> throws (slot s) v y)"
    by (auto simp: raised_outcome)
  show ?thesis using invoke_tame[OF wf t, where n=k and C=C] unfolding u r by simp
qed

lemma connection_block_simps [simp]:
  "c_next (connection_block c s) = c_next s" "c_prev (connection_block c s) = c_prev s"
  "slot (connection_block c s) = slot s" "brk (connection_block c s) = brk s"
  "head (connection_block c s) = head s" "tail (connection_block c s) = tail s"
  "trace (connection_block c s) = trace s"
  "is_blocked (connection_block c s) y = (is_blocked s y \<or> c = Some y)"
  by (cases c; simp add: connection_block_def; fail)+

lemma connection_unblock_simps [simp]:
  "c_next (connection_unblock c s) = c_next s" "c_prev (connection_unblock c s) = c_prev s"
  "slot (connection_unblock c s) = slot s" "brk (connection_unblock c s) = brk s"
  "head (connection_unblock c s) = head s" "tail (connection_unblock c s) = tail s"
  "trace (connection_unblock c s) = trace s"
  "is_blocked (connection_unblock c s) y = (is_blocked s y \<and> c \<noteq> Some y)"
  by (cases c; simp add: connection_unblock_def; fail)+

text \<open>
  C10.  \<^verbatim>\<open>clear\<close> returns (given fuel for the length of the list) and leaves the list
  empty: no handle is connected afterwards (a handle's node is never the sentinel
  \<^verbatim>\<open>tail\<close>), and an emission calls no slot and returns the empty optional under the
  default collector.
\<close>

theorem clear_disconnects_all:
  assumes wf: "sig_wf s xs" and n: "length xs \<le> n"
  shows "\<exists>s'. clear n s = Inr s' \<and> sig_wf s' []
           \<and> (\<forall>a. a \<noteq> tail s \<longrightarrow> \<not> connection_is_connected (Some a) s')
           \<and> \<not> connection_is_connected None s'
           \<and> invoke m default_collector v s' = Inr ([], Inr None, s')"
proof -
  from clear_wf[OF wf n] obtain s' where c: "clear n s = Inr s'" and wf': "sig_wf s' []"
    and st: "same_thread s s'" by blast
  have "\<not> connection_is_connected (Some a) s'" if "a \<noteq> tail s" for a
    using wf' st that by (simp add: connection_is_connected_def is_connected_def sig_wf_def same_thread_def)
  moreover have "invoke m default_collector v s' = Inr ([], Inr None, s')"
    using invoke_tame[OF wf', where v=v and n=m and C=default_collector]
    by (simp add: tame_def raised_def collect_default)
  ultimately show ?thesis using c wf' by (auto simp: connection_is_connected_def)
qed

theorem clear_disconnects_all_witness:
  "sig_wf scenario_T [2, 3, 4] \<and> length [2 :: addr, 3, 4] \<le> 3
   \<and> (\<exists>s'. clear 3 scenario_T = Inr s'
        \<and> \<not> connection_is_connected (Some 2) s' \<and> \<not> connection_is_connected (Some 3) s'
        \<and> \<not> connection_is_connected (Some 4) s'
        \<and> invoke 0 default_collector 5 s' = Inr ([], Inr None, s'))"
  using clear_disconnects_all[where s=scenario_T and xs="[2, 3, 4]" and n=3 and m=0 and v=5]
    scenario_T_facts
  by auto


section \<open>Every library call keeps the invariant\<close>

lemma is_connected_iff:
  "sig_wf s xs \<Longrightarrow> is_connected s a = (a \<in> set xs \<or> a = tail s)"
proof -
  assume wf: "sig_wf s xs"
  then have lk: "links (c_next s) (c_prev s) (head s) xs (tail s)" by (simp add: sig_wf_def)
  have "c_prev s (tail s) \<noteq> None" using links_prev_last[OF lk] by simp
  then show ?thesis
    using sig_wf_connected[OF wf, of a] wf by (auto simp: sig_wf_def is_connected_def)
qed

lemma interp_invariant_loop_step:
  fixes R :: "state \<Rightarrow> state \<Rightarrow> bool"
  assumes RA1: "\<forall>s xs. sig_wf s xs \<longrightarrow> R s s"
    and RA2: "\<forall>s s' s''. R s s' \<longrightarrow> R s' s'' \<longrightarrow> R s s''"
    and RA3: "\<forall>s s'. R s s' \<longrightarrow> (\<exists>xs'. sig_wf s' xs')"
    and RA4: "\<forall>s xs b. sig_wf s xs \<longrightarrow> R s (s\<lparr>emission_aborted := b\<rparr>)"
    and RA5: "\<forall>s xs c. sig_wf s xs \<longrightarrow> R s (s\<lparr>current_connection := c\<rparr>)"
    and RA6: "\<forall>s xs c v. sig_wf s xs \<longrightarrow> c \<in> set xs \<longrightarrow> R s (s\<lparr>trace := trace s @ [Called c v]\<rparr>)"
    and RA7: "\<forall>s xs n a s'. sig_wf s xs \<longrightarrow> do_action n a s = Inr s' \<longrightarrow> R s s'"
    and D: "\<And>acts s xs t s'. sig_wf s xs \<Longrightarrow> run_actions m C acts s = Inr (t, s') \<Longrightarrow> R s s'"
    and A: "\<And>cur acc s xs acc' s'. sig_wf s xs \<Longrightarrow> invoke_loop m C v cur acc s = Inr (acc', s') \<Longrightarrow> R s s'"
    and wf: "sig_wf s xs" and run: "invoke_loop (Suc m) C v cur acc s = Inr (acc', s')"
  shows "R s s'"
proof -
  note R_refl = RA1[rule_format] and R_trans = RA2[rule_format]
    and R_wf = RA3[rule_format] and R_cur = RA5[rule_format]
    and R_call = RA6[rule_format]
  show ?thesis
proof (cases "cur = Some (tail s)")
  case True
  with run show ?thesis using R_refl[OF wf] by (simp add: invoke_loop_tail)
next
  case nt: False
  show ?thesis
  proof (cases cur)
    case None
    with run show ?thesis by (simp add: invoke_loop_null)
  next
    case (Some c)
    with nt have ct: "c \<noteq> tail s" by simp
    show ?thesis
    proof (cases "is_connected s c \<and> \<not> is_blocked s c")
      case False
      with run Some ct have "invoke_loop m C v (c_next s c) acc s = Inr (acc', s')"
        by (simp add: invoke_loop_skip)
      then show ?thesis by (rule A[OF wf])
    next
      case True
      then have con: "is_connected s c" and nb: "\<not> is_blocked s c" by simp_all
      have cin: "c \<in> set xs" using con ct is_connected_iff[OF wf] by simp
      show ?thesis
      proof (cases "slot s c")
        case None
        with run Some ct con nb show ?thesis by (simp add: invoke_loop_nocast)
      next
        case sl: (Some sl)
        note eq = invoke_loop_call[OF ct con nb sl, of m C v acc]
        define s0 where "s0 = s\<lparr>current_connection := Some c\<rparr>"
        define sc where "sc = s0\<lparr>trace := trace s0 @ [Called c v]\<rparr>"
        have sc: "s\<lparr>current_connection := Some c, trace := trace s @ [Called c v]\<rparr> = sc"
          by (simp add: sc_def s0_def)
        have wf0: "sig_wf s0 xs" using wf by (subst sig_wf_cong[of s0 s]) (simp_all add: s0_def)
        have wfc: "sig_wf sc xs" using wf0 by (subst sig_wf_cong[of sc s0]) (simp_all add: sc_def)
        have "R s s0" unfolding s0_def by (rule R_cur[OF wf])
        moreover have "R s0 sc" unfolding sc_def by (rule R_call[OF wf0 cin])
        ultimately have R0: "R s sc" by (rule R_trans)
        from run[unfolded Some eq sc] obtain thrown s2 where
          r: "run_actions m C (body sl v) sc = Inr (thrown, s2)"
          by (auto split: sum.splits)
        have R2: "R sc s2" by (rule D[OF wfc r])
        from R_wf[OF R2] obtain xs2 where wf2: "sig_wf s2 xs2" by blast
        define s3 where "s3 = s2\<lparr>current_connection := current_connection s\<rparr>"
        have R3: "R s2 s3" unfolding s3_def by (rule R_cur[OF wf2])
        have R03: "R s s3" by (rule R_trans[OF R0 R_trans[OF R2 R3]])
        from R_wf[OF R3] obtain xs3 where wf3: "sig_wf s3 xs3" by blast
        show ?thesis
        proof (cases "emission_aborted s2")
          case True
          with run[unfolded Some eq sc] r have "s' = s3"
            by (simp add: Let_def s3_def)
          then show ?thesis using R03 by simp
        next
          case False
          with run[unfolded Some eq sc] r obtain acc1 where
            "invoke_loop m C v (c_next s3 c) acc1 s3 = Inr (acc', s')"
            by (simp add: Let_def s3_def)
          from A[OF wf3 this] R03 show ?thesis by (rule R_trans[rotated])
        qed
      qed
    qed
  qed
qed
qed


lemma interp_invariant_invoke_step:
  fixes R :: "state \<Rightarrow> state \<Rightarrow> bool"
  assumes RA1: "\<forall>s xs. sig_wf s xs \<longrightarrow> R s s"
    and RA2: "\<forall>s s' s''. R s s' \<longrightarrow> R s' s'' \<longrightarrow> R s s''"
    and RA3: "\<forall>s s'. R s s' \<longrightarrow> (\<exists>xs'. sig_wf s' xs')"
    and RA4: "\<forall>s xs b. sig_wf s xs \<longrightarrow> R s (s\<lparr>emission_aborted := b\<rparr>)"
    and RA5: "\<forall>s xs c. sig_wf s xs \<longrightarrow> R s (s\<lparr>current_connection := c\<rparr>)"
    and RA6: "\<forall>s xs c v. sig_wf s xs \<longrightarrow> c \<in> set xs \<longrightarrow> R s (s\<lparr>trace := trace s @ [Called c v]\<rparr>)"
    and RA7: "\<forall>s xs n a s'. sig_wf s xs \<longrightarrow> do_action n a s = Inr s' \<longrightarrow> R s s'"
    and A: "\<And>cur acc s xs acc' s'. sig_wf s xs \<Longrightarrow> invoke_loop n C v cur acc s = Inr (acc', s') \<Longrightarrow> R s s'"
    and wf: "sig_wf s xs" and run: "invoke n C v s = Inr (cs, r, s')"
  shows "R s s'"
proof -
  note R_trans = RA2[rule_format] and R_wf = RA3[rule_format]
    and R_abort = RA4[rule_format]
  define s1 where "s1 = s\<lparr>emission_aborted := False\<rparr>"
  have wf1: "sig_wf s1 xs" using wf by (subst sig_wf_cong[of s1 s]) (simp_all add: s1_def)
  have R1: "R s s1" unfolding s1_def by (rule R_abort[OF wf])
  from run obtain acc' s2 where
    L: "invoke_loop n C v (c_next s1 (head s1)) (False, coll_init C, []) s1 = Inr (acc', s2)"
    and s': "s' = s2\<lparr>emission_aborted := emission_aborted s\<rparr>"
    by (auto simp: invoke.simps Let_def s1_def split: sum.splits if_splits)
  have R2: "R s1 s2" by (rule A[OF wf1 L])
  from R_wf[OF R2] obtain xs2 where wf2: "sig_wf s2 xs2" by blast
  have "R s2 s'" unfolding s' by (rule R_abort[OF wf2])
  then show ?thesis using R1 R2 R_trans by blast
qed

lemma interp_invariant_actions_step:
  fixes R :: "state \<Rightarrow> state \<Rightarrow> bool"
  assumes RA1: "\<forall>s xs. sig_wf s xs \<longrightarrow> R s s"
    and RA2: "\<forall>s s' s''. R s s' \<longrightarrow> R s' s'' \<longrightarrow> R s s''"
    and RA3: "\<forall>s s'. R s s' \<longrightarrow> (\<exists>xs'. sig_wf s' xs')"
    and RA4: "\<forall>s xs b. sig_wf s xs \<longrightarrow> R s (s\<lparr>emission_aborted := b\<rparr>)"
    and RA5: "\<forall>s xs c. sig_wf s xs \<longrightarrow> R s (s\<lparr>current_connection := c\<rparr>)"
    and RA6: "\<forall>s xs c v. sig_wf s xs \<longrightarrow> c \<in> set xs \<longrightarrow> R s (s\<lparr>trace := trace s @ [Called c v]\<rparr>)"
    and RA7: "\<forall>s xs n a s'. sig_wf s xs \<longrightarrow> do_action n a s = Inr s' \<longrightarrow> R s s'"
    and B: "\<And>v s xs cs r s'. sig_wf s xs \<Longrightarrow> invoke n C v s = Inr (cs, r, s') \<Longrightarrow> R s s'"
  shows "sig_wf s xs \<Longrightarrow> run_actions n C acts s = Inr (t, s') \<Longrightarrow> R s s'"
proof (induction acts arbitrary: s xs)
  case Nil
  then show ?case using RA1[rule_format] by simp
next
  case (Cons a acts)
  note R_refl = RA1[rule_format] and R_trans = RA2[rule_format]
    and R_wf = RA3[rule_format] and R_act = RA7[rule_format]
  show ?case
  proof (cases "a = Throw")
    case True
    with Cons.prems show ?thesis using R_refl by simp
  next
    case nthrow: False
    show ?thesis
    proof (cases "\<exists>w. a = Invoke w")
      case True
      then obtain w where a: "a = Invoke w" by blast
      from Cons.prems(2) obtain cs r s1 where i: "invoke n C w s = Inr (cs, r, s1)"
        by (auto simp: a split: sum.splits)
      have R1: "R s s1" by (rule B[OF Cons.prems(1) i])
      from R_wf[OF R1] obtain xs1 where wf1: "sig_wf s1 xs1" by blast
      show ?thesis
      proof (cases r)
        case (Inl e)
        with Cons.prems(2) i have "s' = s1" by (simp add: a)
        then show ?thesis using R1 by simp
      next
        case (Inr x)
        with Cons.prems(2) i have "run_actions n C acts s1 = Inr (t, s')" by (simp add: a)
        from Cons.IH[OF wf1 this] R1 show ?thesis by (rule R_trans[rotated])
      qed
    next
      case False
      with nthrow Cons.prems(2) obtain s1 where d: "do_action n a s = Inr s1"
        and rest: "run_actions n C acts s1 = Inr (t, s')"
        by (cases a) (auto split: sum.splits)
      have R1: "R s s1" by (rule R_act[OF Cons.prems(1) d])
      from R_wf[OF R1] obtain xs1 where wf1: "sig_wf s1 xs1" by blast
      from Cons.IH[OF wf1 rest] R1 show ?thesis by (rule R_trans[rotated])
    qed
  qed
qed

lemma interp_invariant:
  fixes R :: "state \<Rightarrow> state \<Rightarrow> bool" and C :: "(int, 'c, 'r) collector"
  assumes RA1: "\<forall>s xs. sig_wf s xs \<longrightarrow> R s s"
    and RA2: "\<forall>s s' s''. R s s' \<longrightarrow> R s' s'' \<longrightarrow> R s s''"
    and RA3: "\<forall>s s'. R s s' \<longrightarrow> (\<exists>xs'. sig_wf s' xs')"
    and RA4: "\<forall>s xs b. sig_wf s xs \<longrightarrow> R s (s\<lparr>emission_aborted := b\<rparr>)"
    and RA5: "\<forall>s xs c. sig_wf s xs \<longrightarrow> R s (s\<lparr>current_connection := c\<rparr>)"
    and RA6: "\<forall>s xs c v. sig_wf s xs \<longrightarrow> c \<in> set xs \<longrightarrow> R s (s\<lparr>trace := trace s @ [Called c v]\<rparr>)"
    and RA7: "\<forall>s xs n a s'. sig_wf s xs \<longrightarrow> do_action n a s = Inr s' \<longrightarrow> R s s'"
  shows "(\<forall>v cur acc s xs acc' s'. sig_wf s xs \<longrightarrow>
            invoke_loop n C v cur acc s = Inr (acc', s') \<longrightarrow> R s s')
       \<and> (\<forall>v s xs cs r s'. sig_wf s xs \<longrightarrow> invoke n C v s = Inr (cs, r, s') \<longrightarrow> R s s')
       \<and> (\<forall>acts s xs t s'. sig_wf s xs \<longrightarrow> run_actions n C acts s = Inr (t, s') \<longrightarrow> R s s')"
proof (induction n)
  case 0
  have A: "R s s'" if "sig_wf s xs" "invoke_loop 0 C v cur acc s = Inr (acc', s')"
    for v cur acc s xs acc' s'
    using that RA1[rule_format]
    by (cases "cur = Some (tail s)") (auto simp: invoke_loop_tail invoke_loop_0)
  have B: "R s s'" if "sig_wf s xs" "invoke 0 C v s = Inr (cs, r, s')" for v s xs cs r s'
    by (rule interp_invariant_invoke_step[OF RA1 RA2 RA3 RA4 RA5 RA6 RA7 A that])
  have D: "R s s'" if "sig_wf s xs" "run_actions 0 C acts s = Inr (t, s')" for acts s xs t s'
    by (rule interp_invariant_actions_step[OF RA1 RA2 RA3 RA4 RA5 RA6 RA7 B that])
  show ?case using A B D by blast
next
  case (Suc m)
  from Suc.IH have Am: "\<And>v cur acc s xs acc' s'. sig_wf s xs \<Longrightarrow>
            invoke_loop m C v cur acc s = Inr (acc', s') \<Longrightarrow> R s s'"
    and Dm: "\<And>acts s xs t s'. sig_wf s xs \<Longrightarrow> run_actions m C acts s = Inr (t, s') \<Longrightarrow> R s s'"
    by blast+
  have A: "R s s'" if "sig_wf s xs" "invoke_loop (Suc m) C v cur acc s = Inr (acc', s')"
    for v cur acc s xs acc' s'
    by (rule interp_invariant_loop_step[OF RA1 RA2 RA3 RA4 RA5 RA6 RA7 Dm Am that])
  have B: "R s s'" if "sig_wf s xs" "invoke (Suc m) C v s = Inr (cs, r, s')" for v s xs cs r s'
    by (rule interp_invariant_invoke_step[OF RA1 RA2 RA3 RA4 RA5 RA6 RA7 A that])
  have D: "R s s'" if "sig_wf s xs" "run_actions (Suc m) C acts s = Inr (t, s')" for acts s xs t s'
    by (rule interp_invariant_actions_step[OF RA1 RA2 RA3 RA4 RA5 RA6 RA7 B that])
  show ?case using A B D by blast
qed

lemma evolves_refl: "sig_wf s xs \<Longrightarrow> evolves s s"
  unfolding evolves_def by auto

lemma evolves_trans:
  assumes 1: "evolves s s'" and 2: "evolves s' s''"
  shows "evolves s s''"
proof -
  from 1 obtain n1 where t1: "trace s' = trace s @ n1"
    and c1: "\<forall>a v. Called a v \<in> set n1 \<longrightarrow> is_connected s a \<or> brk s \<le> a"
    unfolding evolves_def by blast
  from 2 obtain n2 where t2: "trace s'' = trace s' @ n2"
    and c2: "\<forall>a v. Called a v \<in> set n2 \<longrightarrow> is_connected s' a \<or> brk s' \<le> a"
    unfolding evolves_def by blast
  from 1 have b1: "brk s \<le> brk s'"
    and k1: "\<forall>a. a < brk s \<longrightarrow> \<not> is_connected s a \<longrightarrow> \<not> is_connected s' a"
    unfolding evolves_def by blast+
  from 2 have b2: "brk s' \<le> brk s''"
    and k2: "\<forall>a. a < brk s' \<longrightarrow> \<not> is_connected s' a \<longrightarrow> \<not> is_connected s'' a"
    unfolding evolves_def by blast+
  have k: "\<forall>a. a < brk s \<longrightarrow> \<not> is_connected s a \<longrightarrow> \<not> is_connected s'' a"
    using k1 k2 b1 by (meson less_le_trans)
  have c: "\<forall>a v. Called a v \<in> set (n1 @ n2) \<longrightarrow> is_connected s a \<or> brk s \<le> a"
  proof (intro allI impI)
    fix a v assume "Called a v \<in> set (n1 @ n2)"
    then consider "Called a v \<in> set n1" | "Called a v \<in> set n2" by auto
    then show "is_connected s a \<or> brk s \<le> a"
    proof cases
      case 1 then show ?thesis using c1 by blast
    next
      case 2
      then have "is_connected s' a \<or> brk s' \<le> a" using c2 by blast
      then show ?thesis using k1 b1 by (metis le_trans not_le_imp_less)
    qed
  qed
  have t: "trace s'' = trace s @ (n1 @ n2)" using t1 t2 by simp
  have hd: "head s'' = head s" "tail s'' = tail s" "brk s \<le> brk s''"
    "\<exists>xs. sig_wf s xs" "\<exists>xs'. sig_wf s'' xs'"
    using 1 2 unfolding evolves_def by auto
  show ?thesis unfolding evolves_def using hd k t c by blast
qed

lemma evolves_same:
  assumes wf: "sig_wf s xs"
    and eq: "c_next s' = c_next s" "c_prev s' = c_prev s" "slot s' = slot s" "brk s' = brk s"
      "head s' = head s" "tail s' = tail s" "trace s' = trace s"
  shows "evolves s s'"
proof -
  have "sig_wf s' xs" using wf eq by (subst sig_wf_cong[of s' s]) simp_all
  then show ?thesis unfolding evolves_def using wf eq by (auto simp: is_connected_def)
qed

lemma evolves_wf:
  assumes wf: "sig_wf s xs" and wf': "sig_wf s' xs'"
    and sub: "set xs' \<subseteq> set xs \<union> {a. brk s \<le> a}"
    and eq: "brk s \<le> brk s'" "head s' = head s" "tail s' = tail s"
    and tr: "trace s' = trace s @ new" "\<forall>a v. Called a v \<in> set new \<longrightarrow> is_connected s a \<or> brk s \<le> a"
  shows "evolves s s'"
proof -
  have "\<not> is_connected s' a" if "a < brk s" "\<not> is_connected s a" for a
    using that sub eq unfolding is_connected_iff[OF wf] is_connected_iff[OF wf'] by auto
  then show ?thesis unfolding evolves_def using wf wf' eq tr by blast
qed

lemma clear_loop_short:
  "succs (c_next s) cur ys (tail s) \<Longrightarrow> distinct (ys @ [tail s]) \<Longrightarrow> n < length ys \<Longrightarrow>
   clear_loop n cur s = Inl OutOfFuel"
proof (induction ys arbitrary: n cur s)
  case Nil
  then show ?case by simp
next
  case (Cons y ys)
  from Cons.prems have cur: "cur = Some y" and yt: "y \<noteq> tail s" and yn: "y \<notin> set ys"
    and sc: "succs (c_next s) (c_next s y) ys (tail s)" and d: "distinct (ys @ [tail s])"
    by auto
  show ?case
  proof (cases n)
    case 0
    then show ?thesis using cur yt by simp
  next
    case (Suc m)
    define s2 where "s2 = s\<lparr>c_next := (c_next s)(y \<mapsto> tail s), c_prev := (c_prev s)(y := None)\<rparr>"
    have "succs (c_next s2) (c_next s y) ys (tail s2)"
      using sc yn by (simp add: s2_def succs_upd)
    moreover have "distinct (ys @ [tail s2])" using d by (simp add: s2_def)
    moreover have "m < length ys" using Cons.prems(3) Suc by simp
    ultimately have "clear_loop m (c_next s y) s2 = Inl OutOfFuel" by (rule Cons.IH)
    then show ?thesis using cur yt by (simp add: Suc s2_def Let_def)
  qed
qed

lemma clear_fuel:
  assumes wf: "sig_wf s xs" and c: "clear n s = Inr s'"
  shows "length xs \<le> n"
proof (rule ccontr)
  assume "\<not> length xs \<le> n"
  then have n: "n < length xs" by simp
  from wf have lk: "links (c_next s) (c_prev s) (head s) xs (tail s)"
    and dist: "distinct (head s # xs @ [tail s])" by (auto simp: sig_wf_def)
  have "clear_loop n (c_next s (head s)) s = Inl OutOfFuel"
    using links_succs[OF lk] dist n by (intro clear_loop_short) auto
  then show False using c by (simp add: clear_def clear_without_lock_def)
qed

lemma disconnect_wf:
  assumes wf: "sig_wf s xs" and d: "disconnect b s = Inr s'"
  shows "sig_wf s' (removeAll b xs) \<and> slot s' = slot s \<and> is_blocked s' = is_blocked s
       \<and> brk s' = brk s \<and> same_thread s s' \<and> trace s' = trace s"
proof (cases "b \<in> set xs")
  case True
  then obtain us vs where xs: "xs = us @ b # vs" by (meson split_list)
  from wf have "distinct xs" by (simp add: sig_wf_def)
  then have r: "removeAll b xs = us @ vs" unfolding xs by (simp add: removeAll_id)
  from disconnect_live[OF wf[unfolded xs]] d show ?thesis unfolding r by auto
next
  case False
  then have r: "removeAll b xs = xs" by simp
  have "\<not> is_connected s b"
  proof
    assume con: "is_connected s b"
    then have bt: "b = tail s" using False is_connected_iff[OF wf] by simp
    then have "c_next s b = None" using wf by (simp add: sig_wf_def)
    then have "disconnect b s = Inl NullPointer"
      using con by (simp add: disconnect_def is_connected_def)
    with d show False by simp
  qed
  then have "s' = s" using d by (simp add: disconnect_dead)
  then show ?thesis using wf r by (simp add: same_thread_def)
qed

lemma disconnect_evolves:
  assumes wf: "sig_wf s xs" and d: "disconnect b s = Inr s'"
  shows "evolves s s'"
  using disconnect_wf[OF wf d] wf
  by (intro evolves_wf[OF wf, where xs'="removeAll b xs" and new="[]"]) (auto simp: same_thread_def)

lemma connect_evolves:
  assumes wf: "sig_wf s xs" and c: "connect sl flags s = Inr (h, s')"
  shows "evolves s s'"
proof (cases "flags AND connect_as_first_slot = 0")
  case True
  from connect_back[OF wf True, of sl] c show ?thesis
    by (intro evolves_wf[OF wf, where xs'="xs @ [brk s]" and new="[Connected (brk s) False]"])
       (auto simp: same_thread_def)
next
  case False
  from connect_front[OF wf False, of sl] c show ?thesis
    by (intro evolves_wf[OF wf, where xs'="brk s # xs" and new="[Connected (brk s) True]"])
       (auto simp: same_thread_def)
qed

lemma clear_evolves:
  assumes wf: "sig_wf s xs" and c: "clear n s = Inr s'"
  shows "evolves s s'"
  using clear_wf[OF wf clear_fuel[OF wf c]] c
  by (intro evolves_wf[OF wf, where xs'="[]" and new="[]"]) (auto simp: same_thread_def)

lemma do_action_evolves:
  assumes wf: "sig_wf s xs" and d: "do_action n a s = Inr s'"
  shows "evolves s s'"
proof (cases a)
  case (Connect flags sl)
  with d obtain h where "connect sl flags s = Inr (h, s')"
    by (auto simp: do_action_def split: sum.splits)
  then show ?thesis by (rule connect_evolves[OF wf])
next
  case (Disconnect b)
  with d have "disconnect b s = Inr s'"
    by (auto simp: do_action_def connection_disconnect_def split: sum.splits)
  then show ?thesis by (rule disconnect_evolves[OF wf])
next
  case DisconnectCurrent
  show ?thesis
  proof (cases "current_connection s")
    case None
    with d DisconnectCurrent have "s' = s"
      by (simp add: do_action_def connection_disconnect_def)
    then show ?thesis using evolves_refl[OF wf] by simp
  next
    case (Some b)
    with d DisconnectCurrent have "disconnect b s = Inr s'"
      by (auto simp: do_action_def connection_disconnect_def split: sum.splits)
    then show ?thesis by (rule disconnect_evolves[OF wf])
  qed
next
  case (Block b)
  with d have "s' = connection_block (Some b) s" by (simp add: do_action_def)
  then show ?thesis by (intro evolves_same[OF wf]) simp_all
next
  case (Unblock b)
  with d have "s' = connection_unblock (Some b) s" by (simp add: do_action_def)
  then show ?thesis by (intro evolves_same[OF wf]) simp_all
next
  case AbortEmission
  with d have "s' = s\<lparr>emission_aborted := True\<rparr>" by (simp add: do_action_def)
  then show ?thesis by (intro evolves_same[OF wf]) simp_all
next
  case (Invoke w)
  with d have "s' = s" by (simp add: do_action_def)
  then show ?thesis using evolves_refl[OF wf] by simp
next
  case Clear
  with d have "clear n s = Inr s'" by (simp add: do_action_def)
  then show ?thesis by (rule clear_evolves[OF wf])
next
  case Throw
  with d have "s' = s" by (simp add: do_action_def)
  then show ?thesis using evolves_refl[OF wf] by simp
qed

lemma interp_evolves:
  fixes C :: "(int, 'c, 'r) collector"
  assumes wf: "sig_wf s xs"
  shows "invoke_loop n C v cur acc s = Inr (acc', s') \<Longrightarrow> evolves s s'"
    and "invoke n C v s = Inr (cs, r, s') \<Longrightarrow> evolves s s'"
    and "run_actions n C acts s = Inr (t, s') \<Longrightarrow> evolves s s'"
proof -
  have I: "(\<forall>v cur acc s xs acc' s'. sig_wf s xs \<longrightarrow>
            invoke_loop n C v cur acc s = Inr (acc', s') \<longrightarrow> evolves s s')
       \<and> (\<forall>v s xs cs r s'. sig_wf s xs \<longrightarrow> invoke n C v s = Inr (cs, r, s') \<longrightarrow> evolves s s')
       \<and> (\<forall>acts s xs t s'. sig_wf s xs \<longrightarrow> run_actions n C acts s = Inr (t, s') \<longrightarrow> evolves s s')"
  proof (rule interp_invariant)
    show "\<forall>s xs. sig_wf s xs \<longrightarrow> evolves s s" using evolves_refl by blast
    show "\<forall>s s' s''. evolves s s' \<longrightarrow> evolves s' s'' \<longrightarrow> evolves s s''" using evolves_trans by blast
    show "\<forall>s s'. evolves s s' \<longrightarrow> (\<exists>xs'. sig_wf s' xs')" unfolding evolves_def by blast
    show "\<forall>s xs b. sig_wf s xs \<longrightarrow> evolves s (s\<lparr>emission_aborted := b\<rparr>)"
      by (intro allI impI evolves_same) simp_all
    show "\<forall>s xs c. sig_wf s xs \<longrightarrow> evolves s (s\<lparr>current_connection := c\<rparr>)"
      by (intro allI impI evolves_same) simp_all
    show "\<forall>s xs c v. sig_wf s xs \<longrightarrow> c \<in> set xs \<longrightarrow> evolves s (s\<lparr>trace := trace s @ [Called c v]\<rparr>)"
    proof (intro allI impI)
      fix s xs c v assume wf: "sig_wf s xs" and c: "c \<in> set xs"
      have wf': "sig_wf (s\<lparr>trace := trace s @ [Called c v]\<rparr>) xs"
        using wf by (subst sig_wf_cong[of _ s]) simp_all
      show "evolves s (s\<lparr>trace := trace s @ [Called c v]\<rparr>)"
        using c is_connected_iff[OF wf]
        by (intro evolves_wf[OF wf wf', where new="[Called c v]"]) auto
    qed
    show "\<forall>s xs n a s'. sig_wf s xs \<longrightarrow> do_action n a s = Inr s' \<longrightarrow> evolves s s'"
      using do_action_evolves by blast
  qed
  show "invoke_loop n C v cur acc s = Inr (acc', s') \<Longrightarrow> evolves s s'" using I wf by blast
  show "invoke n C v s = Inr (cs, r, s') \<Longrightarrow> evolves s s'" using I wf by blast
  show "run_actions n C acts s = Inr (t, s') \<Longrightarrow> evolves s s'" using I wf by blast
qed

lemma evolves_disconnected:
  assumes e: "evolves s s'" and a: "a < brk s" and d: "\<not> is_connected s a"
  shows "\<not> is_connected s' a \<and> (\<forall>v. Called a v \<notin> set (drop (length (trace s)) (trace s')))"
proof -
  from e obtain new where t: "trace s' = trace s @ new"
    and c: "\<forall>a v. Called a v \<in> set new \<longrightarrow> is_connected s a \<or> brk s \<le> a"
    unfolding evolves_def by blast
  have "Called a v \<notin> set new" for v using c a d by auto
  moreover have "\<not> is_connected s' a" using e a d unfolding evolves_def by blast
  ultimately show ?thesis by (simp add: t)
qed

lemma scenario_T_brk: "brk scenario_T = 5"
  using connect_all_wf[OF new_signal_wf, of "[Slot (\<lambda>x. []) (\<lambda>x. x + 1), Slot (\<lambda>x. [Throw]) (\<lambda>x. x),
                              Slot (\<lambda>x. []) (\<lambda>x. 2 * x)]"]
  by (simp add: scenario_T_def)

lemma scenario_T3_facts:
  "disconnect 3 scenario_T = Inr scenario_T3" "sig_wf scenario_T3 [2, 4]"
  "slot scenario_T3 = slot scenario_T" "is_blocked scenario_T3 = is_blocked scenario_T"
  "brk scenario_T3 = 5" "tail scenario_T3 = 1" "emission_aborted scenario_T3 = emission_aborted scenario_T"
proof -
  have wf: "sig_wf scenario_T ([2] @ 3 # [4])" using scenario_T_facts(1) by simp
  from disconnect_live[OF wf] obtain s' where d: "disconnect 3 scenario_T = Inr s'"
    and r: "sig_wf s' ([2] @ [4])" "slot s' = slot scenario_T" "is_blocked s' = is_blocked scenario_T"
      "brk s' = brk scenario_T" "same_thread scenario_T s'"
    by blast
  have s': "scenario_T3 = s'" by (simp add: scenario_T3_def d)
  show "disconnect 3 scenario_T = Inr scenario_T3" "sig_wf scenario_T3 [2, 4]"
    "slot scenario_T3 = slot scenario_T" "is_blocked scenario_T3 = is_blocked scenario_T"
    "brk scenario_T3 = 5" "tail scenario_T3 = 1"
    "emission_aborted scenario_T3 = emission_aborted scenario_T"
    using d r scenario_T_facts scenario_T_brk unfolding s' by (simp_all add: same_thread_def)
qed

lemma scenario_D_once:
  "\<exists>s'. run_actions 1 default_collector [Invoke 1, Invoke 2, Invoke 3] scenario_D = Inr (False, s')
        \<and> trace s' = trace scenario_D @ [Called 2 1]"
  by (simp add: scenario_D_def connect_all.simps connect_def make_link_def new_connection_base_def
      new_signal_def init_def empty_store_def Let_def invoke.simps invoke_loop.simps
      is_connected_def do_action_def connection_disconnect_def disconnect_def
      default_collector_def last_call_def)


section \<open>Scenarios with an aborting slot\<close>

lemma scenario_E_facts:
  "sig_wf scenario_E [2, 3]" "tame (slot scenario_E) v [2, 3]"
  "outcome (slot scenario_E) v 2 = (2, Some v)" "outcome (slot scenario_E) v 3 = (3, Some v)"
  "\<not> is_blocked scenario_E 2" "\<not> is_blocked scenario_E 3"
  "aborts (slot scenario_E) v 2" "\<not> aborts (slot scenario_E) v 3"
  "\<not> throws (slot scenario_E) v 2" "\<not> throws (slot scenario_E) v 3"
  using connect_all_wf[OF new_signal_wf, of "[Slot (\<lambda>x. [AbortEmission]) (\<lambda>x. x), Slot (\<lambda>x. []) (\<lambda>x. x)]"]
  by (auto simp: scenario_E_def upt_rec tame_def slot_effect_def outcome_def throws_def aborts_def)

lemma upto_abort_at:
  "\<forall>u\<in>set us. \<not> ab u \<Longrightarrow> ab a \<Longrightarrow> upto_abort ab (us @ a # vs) = us @ [a]"
  by (induction us) auto

lemma invoke_tame_wf:
  assumes wf: "sig_wf s xs" and t: "tame (slot s) v xs"
  shows "\<exists>r s'. invoke (length xs + k) C v s =
          Inr (map (outcome (slot s) v) (upto_abort (aborts (slot s) v) (filter (\<lambda>y. \<not> is_blocked s y) xs)), r, s')
        \<and> sig_wf s' xs \<and> slot s' = slot s \<and> is_blocked s' = is_blocked s
        \<and> emission_aborted s' = emission_aborted s"
proof -
  define s' where "s' = s\<lparr>trace := trace s @ map (\<lambda>y. Called y v)
      (upto_abort (aborts (slot s) v) (filter (\<lambda>y. \<not> is_blocked s y) xs))\<rparr>"
  have "sig_wf s' xs" using wf by (subst sig_wf_cong[of s' s]) (simp_all add: s'_def)
  then show ?thesis
    using invoke_tame[OF wf t, where n=k and C=C] unfolding s'_def[symmetric]
    by (auto simp: s'_def)
qed

lemma scenario_N_facts:
  "sig_wf scenario_N [2, 3, 4]"
  "v \<noteq> 0 \<Longrightarrow> tame (slot scenario_N) v [2, 3, 4]"
  "slot scenario_N 2 = Some (Slot (\<lambda>x. if x = 0 then [Invoke 1] else []) (\<lambda>x. x))"
  "\<not> is_blocked scenario_N 2" "\<not> is_blocked scenario_N 3" "\<not> is_blocked scenario_N 4"
  "aborts (slot scenario_N) v 2 = False" "aborts (slot scenario_N) v 3 = (v = 1)"
  "aborts (slot scenario_N) v 4 = False"
  "tail scenario_N = 1" "emission_aborted scenario_N = False"
  using connect_all_wf[OF new_signal_wf, of "[Slot (\<lambda>x. if x = 0 then [Invoke 1] else []) (\<lambda>x. x),
      Slot (\<lambda>x. if x = 1 then [AbortEmission] else []) (\<lambda>x. x),
      Slot (\<lambda>x. []) (\<lambda>x. x)]"]
  by (auto simp: scenario_N_def upt_rec tame_def slot_effect_def outcome_def throws_def aborts_def
      same_thread_def)

lemma scenario_N_nested:
  "\<exists>r s'. invoke 4 default_collector 0 scenario_N = Inr ([(2, Some 0), (3, Some 0), (4, Some 0)], r, s')
      \<and> trace s' = trace scenario_N @ [Called 2 0, Called 2 1, Called 3 1, Called 3 0, Called 4 0]"
  by (simp add: scenario_N_def connect_all.simps connect_def make_link_def new_connection_base_def
      new_signal_def init_def empty_store_def Let_def invoke.simps invoke_loop.simps
      is_connected_def do_action_def numeral_nat
      default_collector_def last_call_def)


section \<open>The stable list counts its live nodes\<close>

lemma list_init_wf: "list_wf (list_init empty_list_store) []"
  by (simp add: list_init_def new_link_element_def empty_list_store_def list_wf_def Let_def)

lemma walk_succs:
  "succs N cur ys t \<Longrightarrow> t \<notin> set ys \<Longrightarrow> length ys \<le> n \<Longrightarrow> walk n N cur t = Inr ys"
proof (induction ys arbitrary: n cur)
  case Nil
  then show ?case by (cases n) simp_all
next
  case (Cons y ys)
  then obtain m where n: "n = Suc m" and m: "length ys \<le> m" by (cases n) auto
  from Cons.prems have "walk m N (N y) t = Inr ys" using m by (intro Cons.IH) auto
  then show ?case using Cons.prems by (simp add: n)
qed

lemma live_nodes_wf: "list_wf l xs \<Longrightarrow> length xs \<le> n \<Longrightarrow> live_nodes n l = Inr xs"
  unfolding live_nodes_def list_begin_def
  by (rule walk_succs) (auto simp: list_wf_def dest: links_succs)


lemma list_make_link_wf:
  assumes wf: "list_wf l xs" and pos: "xs @ [list_tail l] = us @ p # vs"
  shows "\<exists>l'. list_make_link (Some p) v l = Inr (l_brk l, l')
           \<and> list_wf l' (us @ l_brk l # butlast (p # vs))
           \<and> elements l' = elements l + 1"
proof -
  define b where "b = l_brk l"
  define q where "q = last (list_head l # us)"
  define h where "h = list_head l"
  define t where "t = list_tail l"
  from wf have lk: "links (l_next l) (l_prev l) h xs t"
    and dist: "distinct (h # xs @ [t])"
    and lt: "\<forall>a\<in>set (h # xs @ [t]). a < b"
    and el: "elements l = of_nat (length xs)"
    by (auto simp: list_wf_def h_def t_def b_def)
  have pos': "xs @ [t] = us @ p # vs" using pos by (simp add: t_def)
  have d2: "distinct (h # us @ p # vs)" using dist unfolding pos' by simp
  have lt2: "\<forall>a\<in>set (h # us @ p # vs). a < b" using lt unfolding pos' by simp
  have fr: "b \<noteq> h" "b \<notin> set us" "b \<noteq> p" "b \<notin> set vs" using lt2 by auto
  have lkp: "links (l_next l) (l_prev l) h us p"
  proof (cases vs rule: rev_cases)
    case Nil
    with pos' have "xs = us" "p = t" by simp_all
    then show ?thesis using lk by simp
  next
    case (snoc ws t')
    with pos' have "xs = us @ p # ws" by simp
    then show ?thesis using lk by (simp add: links_append)
  qed
  have pq: "l_prev l p = Some q" unfolding q_def h_def[symmetric] by (rule links_prev_last[OF lkp])
  have qin: "q \<in> set (h # us)" unfolding q_def h_def[symmetric] by (rule last_in_Cons)
  have qb: "q \<noteq> b" using qin fr by auto
  have qp: "q \<noteq> p" using qin d2 by auto
  define l' where "l' = l\<lparr>l_next := (l_next l)(b \<mapsto> p, q \<mapsto> b),
     l_prev := (l_prev l)(b \<mapsto> q, p \<mapsto> b),
     l_value := (l_value l)(b \<mapsto> v), l_brk := Suc b, elements := elements l + 1\<rparr>"
  have c: "list_make_link (Some p) v l = Inr (b, l')"
    using pq fr qb qp
    by (simp add: list_make_link_def new_link_element_def l'_def Let_def fun_upd_twist
          b_def[symmetric])
  have r: "links ((l_next l)(q \<mapsto> b)) ((l_prev l)(b \<mapsto> q)) h us b"
    unfolding q_def h_def[symmetric] using links_retarget[OF lkp, of b] d2 fr by simp
  have "links ((l_next l)(q \<mapsto> b, b \<mapsto> p)) ((l_prev l)(b \<mapsto> q, p \<mapsto> b)) h us b"
    using r fr d2 by (simp add: links_next_upd links_prev_upd)
  then have l1: "links (l_next l') (l_prev l') h us b"
    using qb by (simp add: l'_def fun_upd_twist)
  have l2: "links (l_next l') (l_prev l') b (butlast (p # vs)) t"
  proof (cases vs rule: rev_cases)
    case Nil
    with pos' have "p = t" by simp
    then show ?thesis using Nil qb by (simp add: l'_def)
  next
    case (snoc ws t')
    with pos' have xs: "xs = us @ p # ws" and t': "t' = t" by simp_all
    from lk xs have "links (l_next l) (l_prev l) p ws t" by (simp add: links_append)
    moreover have "b \<noteq> p" "b \<notin> set ws" "q \<noteq> p" "q \<notin> set ws" "p \<noteq> t" "p \<notin> set ws" "b \<noteq> t"
      using fr d2 qin snoc t' by auto
    ultimately have "links (l_next l') (l_prev l') p ws t"
      by (simp add: l'_def links_next_upd links_prev_upd)
    then show ?thesis using snoc qb by (simp add: l'_def butlast_append)
  qed
  have w: "list_wf l' (us @ b # butlast (p # vs))"
    unfolding list_wf_def
  proof (intro conjI)
    have bl: "butlast (p # vs) @ [t] = p # vs"
      using pos' by (cases vs rule: rev_cases) (auto simp: butlast_append)
    have "distinct (h # us @ b # p # vs)" using d2 fr by auto
    then show "distinct (list_head l' # (us @ b # butlast (p # vs)) @ [list_tail l'])"
      using bl by (simp add: l'_def h_def t_def)
    show "links (l_next l') (l_prev l') (list_head l') (us @ b # butlast (p # vs)) (list_tail l')"
      using l1 l2 by (simp add: links_append l'_def h_def t_def)
    have sub: "set (butlast (p # vs)) \<subseteq> set (p # vs)" by (meson in_set_butlastD subsetI)
    show "\<forall>a\<in>set (us @ b # butlast (p # vs)). a < l_brk l'"
    proof
      fix a assume "a \<in> set (us @ b # butlast (p # vs))"
      then have "a \<in> set us \<or> a = b \<or> a \<in> set (p # vs)" using sub by auto
      then have "a \<le> b" using lt2 by (auto intro: less_imp_le)
      then show "a < l_brk l'" by (simp add: l'_def)
    qed
    show "list_head l' < l_brk l'" "list_tail l' < l_brk l'"
      using lt by (auto simp: l'_def h_def t_def)
    have "length (us @ b # butlast (p # vs)) = length xs + 1"
      using arg_cong[OF pos', of length] by simp
    then show "elements l' = of_nat (length (us @ b # butlast (p # vs)))"
      using el by (simp add: l'_def)
  qed
  show ?thesis using c w unfolding b_def[symmetric] by (intro exI[of _ l']) (simp add: l'_def)
qed

lemma links_cong:
  "\<forall>a\<in>set (p # xs). N a = N' a \<Longrightarrow> \<forall>a\<in>set (xs @ [t]). P a = P' a
   \<Longrightarrow> links N P p xs t = links N' P' p xs t"
  by (induction xs arbitrary: p) auto

lemma links_prefix: "links N P h (us @ zs) t \<Longrightarrow> links N P h us (hd (zs @ [t]))"
  by (cases zs) (auto simp: links_append)

lemma links_suffix: "links N P h (us @ w # ws) t \<Longrightarrow> links N P w ws t"
  by (simp add: links_append)

lemma links_cut:
  assumes lk: "links N P h (us @ ms @ vs) t" and dist: "distinct (h # us @ ms @ vs @ [t])"
  shows "links (N(last (h # us) \<mapsto> hd (vs @ [t]))) (P(hd (vs @ [t]) \<mapsto> last (h # us))) h (us @ vs) t"
proof -
  define q where "q = last (h # us)"
  define e where "e = hd (vs @ [t])"
  have qin: "q \<in> set (h # us)" unfolding q_def by (rule last_in_Cons)
  have ein: "e \<in> set (vs @ [t])" unfolding e_def by (rule hd_in_snoc)
  have l1: "links N P h us (hd ((ms @ vs) @ [t]))" using lk by (intro links_prefix) simp
  have d1: "distinct (h # us)" using dist by simp
  have e1: "e \<notin> set (h # us)" using dist ein by auto
  have r: "links (N(q \<mapsto> e)) (P(e \<mapsto> q)) h us e"
    unfolding q_def by (rule links_retarget[OF l1 d1 e1])
  have "links (N(q \<mapsto> e)) (P(e \<mapsto> q)) h (us @ vs) t"
  proof (cases vs)
    case Nil
    then show ?thesis using r by (simp add: e_def)
  next
    case (Cons w ws)
    then have ew: "e = w" by (simp add: e_def)
    have "links N P h ((us @ ms) @ w # ws) t" using lk Cons by simp
    then have "links N P w ws t" by (rule links_suffix)
    moreover have "q \<noteq> w" "q \<notin> set ws" "w \<noteq> t" "w \<notin> set ws"
      using qin dist Cons by auto
    ultimately have "links (N(q \<mapsto> e)) (P(e \<mapsto> q)) w ws t"
      by (simp add: ew links_next_upd links_prev_upd)
    then show ?thesis using r unfolding Cons links_append ew by simp
  qed
  then show ?thesis by (simp add: q_def e_def)
qed

lemma list_cut_wf:
  assumes wf: "list_wf l (us @ ms @ vs)"
    and N: "\<forall>a\<in>set (list_head l # us @ vs).
              l_next l' a = ((l_next l)(last (list_head l # us) \<mapsto> hd (vs @ [list_tail l]))) a"
    and P: "\<forall>a\<in>set (us @ vs @ [list_tail l]).
              l_prev l' a = ((l_prev l)(hd (vs @ [list_tail l]) \<mapsto> last (list_head l # us))) a"
    and eq: "l_brk l' = l_brk l" "list_head l' = list_head l" "list_tail l' = list_tail l"
    and el: "elements l' = of_nat (length us + length vs)"
  shows "list_wf l' (us @ vs)"
proof -
  from wf have lk: "links (l_next l) (l_prev l) (list_head l) (us @ ms @ vs) (list_tail l)"
    and dist: "distinct (list_head l # us @ ms @ vs @ [list_tail l])"
    by (auto simp: list_wf_def)
  have "links (l_next l') (l_prev l') (list_head l) (us @ vs) (list_tail l)"
    using links_cut[OF lk dist] N P
    by (subst links_cong[where N'="(l_next l)(last (list_head l # us) \<mapsto> hd (vs @ [list_tail l]))"
          and P'="(l_prev l)(hd (vs @ [list_tail l]) \<mapsto> last (list_head l # us))"]) auto
  then show ?thesis
    using wf eq el unfolding list_wf_def by auto
qed

lemma list_wf_facts:
  assumes wf: "list_wf l (us @ ms @ vs)"
  shows "l_prev l (hd (ms @ vs @ [list_tail l])) = Some (last (list_head l # us))"
    and "l_next l (last (list_head l # us)) = Some (hd (ms @ vs @ [list_tail l]))"
    and "last (list_head l # us) \<in> set (list_head l # us)"
    and "hd (vs @ [list_tail l]) \<in> set (vs @ [list_tail l])"
    and "distinct (list_head l # us @ ms @ vs @ [list_tail l])"
proof -
  from wf have lk: "links (l_next l) (l_prev l) (list_head l) (us @ ms @ vs) (list_tail l)"
    and dist: "distinct (list_head l # us @ ms @ vs @ [list_tail l])"
    by (auto simp: list_wf_def)
  have l1: "links (l_next l) (l_prev l) (list_head l) us (hd ((ms @ vs) @ [list_tail l]))"
    by (rule links_prefix[OF lk])
  show "l_prev l (hd (ms @ vs @ [list_tail l])) = Some (last (list_head l # us))"
    using links_prev_last[OF l1] by simp
  show "l_next l (last (list_head l # us)) = Some (hd (ms @ vs @ [list_tail l]))"
  proof (cases us rule: rev_cases)
    case Nil
    then show ?thesis using links_next_hd[OF lk] by simp
  next
    case (snoc ws u)
    then show ?thesis using l1 by (simp add: links_snoc)
  qed
  show "last (list_head l # us) \<in> set (list_head l # us)" by (rule last_in_Cons)
  show "hd (vs @ [list_tail l]) \<in> set (vs @ [list_tail l])" by (rule hd_in_snoc)
  show "distinct (list_head l # us @ ms @ vs @ [list_tail l])" by (rule dist)
qed

lemma list_erase_wf:
  assumes wf: "list_wf l (us @ p # vs)"
  shows "\<exists>l'. list_erase (Some p) l = Inr (Some (hd (vs @ [list_tail l])), l')
           \<and> list_wf l' (us @ vs) \<and> elements l' = elements l - 1"
proof -
  define q where "q = last (list_head l # us)"
  define e where "e = hd (vs @ [list_tail l])"
  have wf': "list_wf l (us @ [p] @ vs)" using wf by simp
  note f = list_wf_facts[OF wf', folded q_def e_def]
  have pq: "l_prev l p = Some q" using f(1) by simp
  have lkp: "links (l_next l) (l_prev l) p vs (list_tail l)"
    using wf by (simp add: list_wf_def links_append)
  have pn: "l_next l p = Some e" unfolding e_def by (rule links_next_hd[OF lkp])
  have ne: "q \<noteq> p" "e \<noteq> p" "e \<noteq> q" using f(3,4,5) by auto
  define l' where "l' = l\<lparr>l_next := (l_next l)(q \<mapsto> e), l_prev := (l_prev l)(e \<mapsto> q),
      elements := elements l - 1\<rparr>"
  have c: "list_erase (Some p) l = Inr (Some e, l')"
    using pq pn ne by (simp add: list_erase_def l'_def Let_def)
  have "elements l = of_nat (length us + length vs) + 1" using wf by (simp add: list_wf_def)
  then have el: "elements l' = of_nat (length us + length vs)"
    by (simp add: l'_def)
  have "list_wf l' (us @ vs)"
    by (rule list_cut_wf[OF wf']) (simp_all add: l'_def q_def e_def el[unfolded l'_def, simplified])
  then show ?thesis using c by (intro exI[of _ l']) (simp add: l'_def e_def)
qed

lemma pop_front_wf:
  assumes wf: "list_wf l (x # xs)"
  shows "\<exists>l'. pop_front l = Inr l' \<and> list_wf l' xs \<and> elements l' = elements l - 1"
proof -
  define e where "e = hd (xs @ [list_tail l])"
  have wf': "list_wf l ([] @ [x] @ xs)" using wf by simp
  note f = list_wf_facts[OF wf', folded e_def]
  have hx: "l_next l (list_head l) = Some x" using f(2) by simp
  have lkp: "links (l_next l) (l_prev l) x xs (list_tail l)"
    using wf by (simp add: list_wf_def)
  have xn: "l_next l x = Some e" unfolding e_def by (rule links_next_hd[OF lkp])
  have ne: "list_head l \<noteq> x" "e \<noteq> list_head l" using f(4,5) by auto
  define l' where "l' = l\<lparr>l_next := (l_next l)(list_head l \<mapsto> e),
      l_prev := (l_prev l)(e \<mapsto> list_head l), elements := elements l - 1\<rparr>"
  have c: "pop_front l = Inr l'"
    using hx xn ne by (simp add: pop_front_def l'_def Let_def)
  have "elements l = of_nat (length xs) + 1" using wf by (simp add: list_wf_def)
  then have el: "elements l - 1 = of_nat (length xs)"
    by simp
  have "list_wf l' ([] @ xs)"
    by (rule list_cut_wf[OF wf']) (simp_all add: l'_def e_def el)
  then show ?thesis using c by (intro exI[of _ l']) (simp add: l'_def)
qed

lemma pop_back_wf:
  assumes wf: "list_wf l (xs @ [x])"
  shows "\<exists>l'. pop_back l = Inr l' \<and> list_wf l' xs \<and> elements l' = elements l - 1"
proof -
  define q where "q = last (list_head l # xs)"
  have wf': "list_wf l (xs @ [x] @ [])" using wf by simp
  note f = list_wf_facts[OF wf', folded q_def]
  have tx: "l_prev l (list_tail l) = Some x"
    using wf links_prev_last[of "l_next l" "l_prev l" "list_head l" "xs @ [x]" "list_tail l"]
    by (simp add: list_wf_def)
  have xq: "l_prev l x = Some q" using f(1) by simp
  have ne: "list_tail l \<noteq> x" "q \<noteq> list_tail l" using f(3,5) by auto
  define l' where "l' = l\<lparr>l_next := (l_next l)(q \<mapsto> list_tail l),
      l_prev := (l_prev l)(list_tail l \<mapsto> q), elements := elements l - 1\<rparr>"
  have c: "pop_back l = Inr l'"
    using tx xq ne by (simp add: pop_back_def l'_def Let_def)
  have "elements l = of_nat (length xs) + 1" using wf by (simp add: list_wf_def)
  then have el: "elements l - 1 = of_nat (length xs)"
    by simp
  have "list_wf l' (xs @ [])"
    by (rule list_cut_wf[OF wf']) (simp_all add: l'_def q_def el)
  then show ?thesis using c by (intro exI[of _ l']) (simp add: l'_def)
qed

lemma erase_loop_done [simp]: "erase_loop n f e e l = Inr l"
  by (cases n) simp_all

lemma erase_loop_succs:
  "succs (l_next l) cur ms e \<Longrightarrow> e \<notin> set ms \<Longrightarrow> distinct ms \<Longrightarrow> length ms \<le> n
   \<Longrightarrow>
   \<exists>l'. erase_loop n f (Some e) cur l = Inr l'
      \<and> l_next l' = (\<lambda>k. if k \<in> set ms then Some e else l_next l k)
      \<and> l_prev l' = (\<lambda>k. if k \<in> set ms then l_prev l f else l_prev l k)
      \<and> elements l' = elements l - of_nat (length ms)
      \<and> l_brk l' = l_brk l \<and> list_head l' = list_head l \<and> list_tail l' = list_tail l"
proof (induction ms arbitrary: n cur l)
  case Nil
  then show ?case by simp
next
  case (Cons k ms)
  from Cons.prems obtain m where n: "n = Suc m" and m: "length ms \<le> m" by (cases n) auto
  from Cons.prems have cur: "cur = Some k" and ke: "k \<noteq> e" and kn: "k \<notin> set ms"
    and sc: "succs (l_next l) (l_next l k) ms e" and en: "e \<notin> set ms" and d: "distinct ms"
    by auto
  define l3 where "l3 = l\<lparr>l_prev := (l_prev l)(k := l_prev l f), l_next := (l_next l)(k := Some e),
      elements := elements l - 1\<rparr>"
  have u3: "elements l3 = elements l - 1" by (simp add: l3_def)
  have pf: "l_prev l3 f = l_prev l f" by (simp add: l3_def)
  have "succs (l_next l3) (l_next l k) ms e" using sc kn by (simp add: l3_def succs_upd)
  then obtain l' where r: "erase_loop m f (Some e) (l_next l k) l3 = Inr l'"
    and N: "l_next l' = (\<lambda>k. if k \<in> set ms then Some e else l_next l3 k)"
    and P: "l_prev l' = (\<lambda>k. if k \<in> set ms then l_prev l3 f else l_prev l3 k)"
    and E: "elements l' = elements l3 - of_nat (length ms)"
    and F: "l_brk l' = l_brk l3" "list_head l' = list_head l3" "list_tail l' = list_tail l3"
    using Cons.IH[OF _ en d m, of l3 "l_next l k"] by blast
  have c: "erase_loop n f (Some e) cur l = Inr l'"
    using r cur ke by (simp add: n l3_def Let_def)
  show ?case
    using c N P E F u3 unfolding pf
    by (intro exI[of _ l']) (auto simp: l3_def fun_eq_iff)
qed

lemma list_erase_range_wf:
  assumes wf: "list_wf l (us @ ms @ vs)" and n: "length ms \<le> n"
  shows "\<exists>l'. list_erase_range n (Some (hd (ms @ vs @ [list_tail l]))) (Some (hd (vs @ [list_tail l]))) l
             = Inr (Some (hd (vs @ [list_tail l])), l')
           \<and> list_wf l' (us @ vs)
           \<and> elements l' = elements l - of_nat (length ms)"
proof -
  define q where "q = last (list_head l # us)"
  define e where "e = hd (vs @ [list_tail l])"
  define f where "f = hd (ms @ vs @ [list_tail l])"
  note fs = list_wf_facts[OF wf, folded q_def e_def f_def]
  from wf have lk: "links (l_next l) (l_prev l) (list_head l) (us @ ms @ vs) (list_tail l)"
    and el: "elements l = of_nat (length us + length ms + length vs)"
    by (auto simp: list_wf_def)
  have "links (l_next l) (l_prev l) q (ms @ vs) (list_tail l)"
    using lk unfolding q_def by (cases us rule: rev_cases) (auto simp: links_append)
  then have "links (l_next l) (l_prev l) q ms (hd (vs @ [list_tail l]))"
    by (rule links_prefix)
  then have sc: "succs (l_next l) (l_next l q) ms e" unfolding e_def by (rule links_succs)
  have nq: "l_next l q = Some f" using fs(2) .
  have ein: "e \<notin> set ms" "distinct ms" using fs(4,5) by auto
  from erase_loop_succs[OF sc[unfolded nq] ein n, of f] obtain l1 where
    r: "erase_loop n f (Some e) (Some f) l = Inr l1"
    and N: "l_next l1 = (\<lambda>k. if k \<in> set ms then Some e else l_next l k)"
    and P: "l_prev l1 = (\<lambda>k. if k \<in> set ms then l_prev l f else l_prev l k)"
    and E: "elements l1 = elements l - of_nat (length ms)"
    and F: "l_brk l1 = l_brk l" "list_head l1 = list_head l" "list_tail l1 = list_tail l"
    by auto
  have pf: "l_prev l1 f = Some q" using fs(1) by (simp add: P)
  define l' where "l' = l1\<lparr>l_next := (l_next l1)(q \<mapsto> e), l_prev := (l_prev l1)(e \<mapsto> q)\<rparr>"
  have c: "list_erase_range n (Some f) (Some e) l = Inr (Some e, l')"
    using r pf by (simp add: list_erase_range_def l'_def Let_def)
  have "list_wf l' (us @ vs)"
  proof (rule list_cut_wf[OF wf])
    have "set ms \<inter> set (list_head l # us @ vs @ [list_tail l]) = {}" using fs(5) by auto
    then have nm: "\<And>a. a \<in> set (list_head l # us @ vs @ [list_tail l]) \<Longrightarrow> a \<notin> set ms" by blast
    show "\<forall>a\<in>set (list_head l # us @ vs).
       l_next l' a = ((l_next l)(last (list_head l # us) \<mapsto> hd (vs @ [list_tail l]))) a"
      using nm by (auto simp: l'_def N q_def e_def)
    show "\<forall>a\<in>set (us @ vs @ [list_tail l]).
       l_prev l' a = ((l_prev l)(hd (vs @ [list_tail l]) \<mapsto> last (list_head l # us))) a"
      using nm by (auto simp: l'_def P q_def e_def)
    show "l_brk l' = l_brk l" "list_head l' = list_head l" "list_tail l' = list_tail l"
      using F by (simp_all add: l'_def)
    show "elements l' = of_nat (length us + length vs)" using E el by (simp add: l'_def)
  qed
  then show ?thesis using c E unfolding f_def e_def by (intro exI[of _ l']) (simp add: l'_def)
qed

lemma list_clear_wf:
  assumes wf: "list_wf l xs" and n: "length xs \<le> n"
  shows "\<exists>l'. list_clear n l = Inr l' \<and> list_wf l' [] \<and> elements l' = 0"
proof -
  have wf': "list_wf l ([] @ xs @ [])" using wf by simp
  have b: "list_begin l = Some (hd (xs @ [] @ [list_tail l]))"
    using list_wf_facts(2)[OF wf'] by (simp add: list_begin_def)
  from list_erase_range_wf[OF wf' n] obtain l' where
    "list_erase_range n (Some (hd (xs @ [] @ [list_tail l]))) (Some (hd ([] @ [list_tail l]))) l
      = Inr (Some (hd ([] @ [list_tail l])), l')" and w: "list_wf l' ([] @ [])"
    by blast
  then have "list_clear n l = Inr l'" by (simp add: list_clear_def b list_end_def)
  moreover have "elements l' = 0" using w by (simp add: list_wf_def)
  ultimately show ?thesis using w by auto
qed

lemma walk_length: "walk n N cur t = Inr xs \<Longrightarrow> length xs \<le> n"
proof (induction n arbitrary: cur xs)
  case 0
  then show ?case by (simp split: if_splits)
next
  case (Suc n)
  then show ?case by (fastforce split: if_splits option.splits sum.splits)
qed

lemma live_nodes_unique:
  assumes wf: "list_wf l ys" and w: "live_nodes n l = Inr xs"
  shows "xs = ys \<and> length ys \<le> n"
proof -
  have "length xs \<le> n" using w unfolding live_nodes_def by (rule walk_length)
  have sc: "succs (l_next l) (list_begin l) ys (list_tail l)" and t: "list_tail l \<notin> set ys"
    using wf by (auto simp: list_wf_def list_begin_def dest: links_succs)
  have "walk n N cur t = Inr xs \<Longrightarrow> succs N cur ys t \<Longrightarrow> t \<notin> set ys \<Longrightarrow> xs = ys"
    for N cur t
  proof (induction ys arbitrary: n cur xs)
    case Nil
    then show ?case by (cases n) simp_all
  next
    case (Cons y ys)
    from Cons.prems obtain m where n: "n = Suc m" by (cases n) (auto split: if_splits)
    from Cons.prems obtain xs' where "walk m N (N y) t = Inr xs'" and "xs = y # xs'"
      by (auto simp: n split: sum.splits)
    then show ?case using Cons.IH[of m "N y" xs'] Cons.prems by simp
  qed
  from this[OF w[unfolded live_nodes_def] sc t] have "xs = ys" .
  then show ?thesis using \<open>length xs \<le> n\<close> by simp
qed

lemma list_insert_wf:
  assumes wf: "list_wf l xs" and p: "p \<in> set (xs @ [list_tail l])"
  shows "\<exists>l' xs'. list_make_link (Some p) v l = Inr (l_brk l, l') \<and> list_wf l' xs'
           \<and> length xs' = Suc (length xs) \<and> elements l' = elements l + 1"
proof -
  from split_list[OF p] obtain us vs where pos: "xs @ [list_tail l] = us @ p # vs" by blast
  from list_make_link_wf[OF wf pos, of v] obtain l' where
    c: "list_make_link (Some p) v l = Inr (l_brk l, l')"
    and w: "list_wf l' (us @ l_brk l # butlast (p # vs))" and e: "elements l' = elements l + 1"
    by blast
  have "length (us @ l_brk l # butlast (p # vs)) = Suc (length xs)"
    using arg_cong[OF pos, of length] by simp
  then show ?thesis using c w e by blast
qed

lemma list_begin_wf: "list_wf l xs \<Longrightarrow> list_begin l = Some (hd (xs @ [list_tail l]))"
  using list_wf_facts(2)[of l "[]" xs "[]"] by (simp add: list_begin_def)

lemma range_split:
  assumes d: "last zs = t" and f: "f \<in> set zs" and e: "e \<in> set (dropWhile (\<lambda>x. x \<noteq> f) zs)"
  shows "\<exists>us ms vs. butlast zs = us @ ms @ vs \<and> f = hd (ms @ vs @ [t]) \<and> e = hd (vs @ [t])"
proof -
  define us where "us = takeWhile (\<lambda>x. x \<noteq> f) zs"
  define ds where "ds = dropWhile (\<lambda>x. x \<noteq> f) zs"
  have zs: "zs = us @ ds" by (simp add: us_def ds_def)
  have ne: "ds \<noteq> []" using f by (auto simp: ds_def)
  have hf: "hd ds = f" using hd_dropWhile[of "\<lambda>x. x \<noteq> f" zs] ne by (simp add: ds_def)
  from e obtain ms ws where ds: "ds = ms @ e # ws" unfolding ds_def[symmetric]
    by (auto dest: split_list)
  define vs where "vs = butlast (e # ws)"
  have "last (e # ws) = t" using d zs ds by simp
  then have v: "vs @ [t] = e # ws" unfolding vs_def
    using append_butlast_last_id[of "e # ws"] by simp
  have "butlast zs = us @ ms @ vs"
    unfolding zs ds vs_def by (simp add: butlast_append)
  moreover have "f = hd (ms @ vs @ [t])" using hf ds v by simp
  moreover have "e = hd (vs @ [t])" using v by simp
  ultimately show ?thesis by blast
qed

lemma apply_op_wf:
  assumes wf: "list_wf l xs" and ok: "op_ok l xs op" and n: "length xs \<le> n"
  shows "\<exists>l' xs'. apply_op n op l = Inr l' \<and> list_wf l' xs'
           \<and> (insertion op \<longrightarrow> length xs' = Suc (length xs) \<and> elements l' = elements l + 1)
           \<and> (erasure op \<longrightarrow> Suc (length xs') = length xs \<and> elements l' = elements l - 1)"
proof (cases op)
  case (Push_front v)
  have "hd (xs @ [list_tail l]) \<in> set (xs @ [list_tail l])" by (rule hd_in_set) simp
  from list_insert_wf[OF wf this, of v] obtain l' xs' where
    c: "list_make_link (Some (hd (xs @ [list_tail l]))) v l = Inr (l_brk l, l')"
    and w: "list_wf l' xs'" "length xs' = Suc (length xs)" "elements l' = elements l + 1"
    by blast
  have "apply_op n op l = Inr l'"
    by (simp add: Push_front apply_op_def push_front_def list_insert_def list_begin_wf[OF wf] c)
  then show ?thesis using w by (auto simp: erasure_def Push_front)
next
  case (Push_back v)
  have "list_tail l \<in> set (xs @ [list_tail l])" by simp
  from list_insert_wf[OF wf this, of v] obtain l' xs' where
    c: "list_make_link (Some (list_tail l)) v l = Inr (l_brk l, l')"
    and w: "list_wf l' xs'" "length xs' = Suc (length xs)" "elements l' = elements l + 1"
    by blast
  have "apply_op n op l = Inr l'"
    by (simp add: Push_back apply_op_def push_back_def list_insert_def list_end_def c)
  then show ?thesis using w by (auto simp: erasure_def Push_back)
next
  case (Insert pos v)
  with ok obtain p where pos: "pos = Some p" and p: "p \<in> set (xs @ [list_tail l])"
    by (auto simp: op_ok_def)
  from list_insert_wf[OF wf p, of v] obtain l' xs' where
    c: "list_make_link (Some p) v l = Inr (l_brk l, l')"
    and w: "list_wf l' xs'" "length xs' = Suc (length xs)" "elements l' = elements l + 1"
    by blast
  have "apply_op n op l = Inr l'"
    by (simp add: Insert apply_op_def list_insert_def pos c)
  then show ?thesis using w by (auto simp: erasure_def Insert)
next
  case (Emplace pos v)
  with ok obtain p where pos: "pos = Some p" and p: "p \<in> set (xs @ [list_tail l])"
    by (auto simp: op_ok_def)
  from list_insert_wf[OF wf p, of v] obtain l' xs' where
    c: "list_make_link (Some p) v l = Inr (l_brk l, l')"
    and w: "list_wf l' xs'" "length xs' = Suc (length xs)" "elements l' = elements l + 1"
    by blast
  have "apply_op n op l = Inr l'"
    by (simp add: Emplace apply_op_def list_emplace_def pos c)
  then show ?thesis using w by (auto simp: erasure_def Emplace)
next
  case (Erase pos)
  with ok obtain p where pos: "pos = Some p" and "p \<in> set xs" by (auto simp: op_ok_def)
  then obtain us vs where xs: "xs = us @ p # vs" by (auto dest: split_list)
  from list_erase_wf[OF wf[unfolded xs]] obtain l' where
    c: "list_erase (Some p) l = Inr (Some (hd (vs @ [list_tail l])), l')"
    and w: "list_wf l' (us @ vs)" "elements l' = elements l - 1"
    by blast
  have "apply_op n op l = Inr l'" by (simp add: Erase apply_op_def pos c)
  then show ?thesis using w by (auto simp: insertion_def Erase xs)
next
  case (Erase_range first last')
  with ok obtain f e where fl: "first = Some f" "last' = Some e"
    and f: "f \<in> set (xs @ [list_tail l])"
    and e: "e \<in> set (dropWhile (\<lambda>x. x \<noteq> f) (xs @ [list_tail l]))"
    by (auto simp: op_ok_def split: option.splits)
  from range_split[OF _ f e, of "list_tail l"] obtain us ms vs where
    xs: "xs = us @ ms @ vs" and f': "f = hd (ms @ vs @ [list_tail l])"
    and e': "e = hd (vs @ [list_tail l])"
    by auto
  have "length ms \<le> n" using n xs by simp
  from list_erase_range_wf[OF wf[unfolded xs] this] obtain l' where
    c: "list_erase_range n (Some f) (Some e) l = Inr (Some e, l')"
    and w: "list_wf l' (us @ vs)"
    unfolding f' e' by blast
  have "apply_op n op l = Inr l'" by (simp add: Erase_range apply_op_def fl c)
  then show ?thesis using w by (auto simp: insertion_def erasure_def Erase_range)
next
  case Clear
  from list_clear_wf[OF wf n] obtain l' where c: "list_clear n l = Inr l'" and w: "list_wf l' []"
    by blast
  have "apply_op n op l = Inr l'" by (simp add: Clear apply_op_def c)
  then show ?thesis using w by (auto simp: insertion_def erasure_def Clear)
next
  case Pop_front
  with ok obtain y ys where xs: "xs = y # ys" by (cases xs) (auto simp: op_ok_def)
  from pop_front_wf[OF wf[unfolded xs]] obtain l' where
    c: "pop_front l = Inr l'" and w: "list_wf l' ys" "elements l' = elements l - 1"
    by blast
  have "apply_op n op l = Inr l'" by (simp add: Pop_front apply_op_def c)
  then show ?thesis using w by (auto simp: insertion_def Pop_front xs)
next
  case Pop_back
  with ok obtain y ys where xs: "xs = ys @ [y]"
    by (cases xs rule: rev_cases) (auto simp: op_ok_def)
  from pop_back_wf[OF wf[unfolded xs]] obtain l' where
    c: "pop_back l = Inr l'" and w: "list_wf l' ys" "elements l' = elements l - 1"
    by blast
  have "apply_op n op l = Inr l'" by (simp add: Pop_back apply_op_def c)
  then show ?thesis using w by (auto simp: insertion_def Pop_back xs)
qed

lemma reachable_wf: "reachable l \<Longrightarrow> \<exists>xs. list_wf l xs"
proof (induction rule: reachable.induct)
  case init
  show ?case using list_init_wf by blast
next
  case (step l n xs op l')
  from step.IH obtain ys where wf: "list_wf l ys" by blast
  from live_nodes_unique[OF wf step.hyps(2)] have "xs = ys" "length ys \<le> n" by simp_all
  with apply_op_wf[OF wf, of op n] step.hyps(3,4) show ?case by auto
qed

lemmas list_defs = list_init_def empty_list_store_def new_link_element_def push_back_def
  list_insert_def list_make_link_def list_end_def list_begin_def list_erase_def Let_def

lemma scenario_L_push: "push_back 10 (list_init empty_list_store) = Inr scenario_L"
  by (simp add: scenario_L_def list_defs)

lemma scenario_L2_push: "push_back 20 scenario_L = Inr scenario_L2"
  by (simp add: scenario_L2_def scenario_L_def list_defs)

lemma scenario_L_wf: "list_wf scenario_L [2]"
  by (simp add: scenario_L_def list_defs list_wf_def)

lemma scenario_L2_wf: "list_wf scenario_L2 [2, 3]"
  by (simp add: scenario_L2_def list_defs list_wf_def)

lemma scenario_L2_begin: "list_begin scenario_L2 = Some 2"
  by (simp add: scenario_L2_def list_defs)

lemma scenario_L1_erase: "list_erase (Some 2) scenario_L2 = Inr (Some 3, scenario_L1)"
  by (simp add: scenario_L1_def scenario_L2_def list_defs)

lemma scenario_L1_wf: "list_wf scenario_L1 [3]"
  by (simp add: scenario_L1_def scenario_L2_def list_defs list_wf_def)

lemma scenario_L0_erase: "list_erase (Some 2) scenario_L1 = Inr (Some 3, scenario_L0)"
  by (simp add: scenario_L0_def scenario_L1_def scenario_L2_def list_defs)

lemma scenario_L0_nodes: "live_nodes 1 scenario_L0 = Inr [3]"
  by (simp add: scenario_L0_def scenario_L1_def scenario_L2_def list_defs live_nodes_def)

lemma scenario_L0_size: "list_size scenario_L0 = 0"
  by (simp add: scenario_L0_def scenario_L1_def scenario_L2_def list_defs list_size_def)

text \<open>
  C9, amended.  In every list made from the empty list by calls whose iterators point into
  the list, the size is the number of live nodes, as a \<^verbatim>\<open>size_t\<close>, and every such call
  returns: an insertion adds one node and one to the size, an erasure of one element removes
  one node and takes one off the size.
\<close>

theorem size_counts_live_nodes:
  assumes "reachable l"
  shows "\<exists>xs. (\<forall>n\<ge>length xs. live_nodes n l = Inr xs) \<and> list_size l = of_nat (length xs) \<and>
     (\<forall>op n. op_ok l xs op \<and> length xs \<le> n \<longrightarrow>
        (\<exists>l' xs'. apply_op n op l = Inr l' \<and> reachable l' \<and>
           live_nodes (length xs') l' = Inr xs' \<and> list_size l' = of_nat (length xs') \<and>
           (insertion op \<longrightarrow> length xs' = length xs + 1 \<and> list_size l' = list_size l + 1) \<and>
           (erasure op \<longrightarrow> length xs' + 1 = length xs \<and> list_size l' = list_size l - 1)))"
proof -
  from reachable_wf[OF assms] obtain xs where wf: "list_wf l xs" by blast
  have 1: "\<forall>n\<ge>length xs. live_nodes n l = Inr xs" using live_nodes_wf[OF wf] by simp
  have 2: "list_size l = of_nat (length xs)" using wf by (simp add: list_size_def list_wf_def)
  have 3: "\<exists>l' xs'. apply_op n op l = Inr l' \<and> reachable l' \<and>
           live_nodes (length xs') l' = Inr xs' \<and> list_size l' = of_nat (length xs') \<and>
           (insertion op \<longrightarrow> length xs' = length xs + 1 \<and> list_size l' = list_size l + 1) \<and>
           (erasure op \<longrightarrow> length xs' + 1 = length xs \<and> list_size l' = list_size l - 1)"
    if ok: "op_ok l xs op" and n: "length xs \<le> n" for op n
  proof -
    from apply_op_wf[OF wf ok n] obtain l' xs' where
      a: "apply_op n op l = Inr l'" and w: "list_wf l' xs'"
      and i: "insertion op \<longrightarrow> length xs' = Suc (length xs) \<and> elements l' = elements l + 1"
      and e: "erasure op \<longrightarrow> Suc (length xs') = length xs \<and> elements l' = elements l - 1"
      by blast
    have r: "reachable l'"
      using assms live_nodes_wf[OF wf n] ok a by (rule reachable.step)
    have "live_nodes (length xs') l' = Inr xs'" using live_nodes_wf[OF w] by simp
    moreover have "list_size l' = of_nat (length xs')"
      using w by (simp add: list_size_def list_wf_def)
    ultimately show ?thesis using a r i e by (auto simp: list_size_def)
  qed
  show ?thesis using 1 2 3 by blast
qed

theorem size_counts_live_nodes_witness:
  "reachable scenario_L2 \<and> op_ok scenario_L2 [2, 3] (Erase (Some 2))
   \<and> apply_op 2 (Erase (Some 2)) scenario_L2 = Inr scenario_L1 \<and> reachable scenario_L1
   \<and> live_nodes 2 scenario_L2 = Inr [2, 3] \<and> list_size scenario_L2 = 2
   \<and> live_nodes 1 scenario_L1 = Inr [3] \<and> list_size scenario_L1 = 1"
proof -
  have r0: "reachable (list_init empty_list_store :: int stable_list)" by (rule reachable.init)
  have r1: "reachable scenario_L"
    by (rule reachable.step[OF r0, where n=0 and xs="[]" and op="Push_back 10"])
      (simp_all add: live_nodes_wf[OF list_init_wf] op_ok_def apply_op_def scenario_L_push)
  have r2: "reachable scenario_L2"
    by (rule reachable.step[OF r1, where n=1 and xs="[2]" and op="Push_back 20"])
      (simp_all add: live_nodes_wf[OF scenario_L_wf] op_ok_def apply_op_def scenario_L2_push)
  have ok: "op_ok scenario_L2 [2, 3] (Erase (Some 2))" by (simp add: op_ok_def)
  have a: "apply_op 2 (Erase (Some 2)) scenario_L2 = Inr scenario_L1"
    by (simp add: apply_op_def scenario_L1_erase)
  from size_counts_live_nodes[OF r2] obtain xs where
    n: "\<forall>n\<ge>length xs. live_nodes n scenario_L2 = Inr xs"
    and s: "list_size scenario_L2 = of_nat (length xs)"
    and st: "\<forall>op n. op_ok scenario_L2 xs op \<and> length xs \<le> n \<longrightarrow>
        (\<exists>l' xs'. apply_op n op scenario_L2 = Inr l' \<and> reachable l' \<and>
           live_nodes (length xs') l' = Inr xs' \<and> list_size l' = of_nat (length xs') \<and>
           (insertion op \<longrightarrow> length xs' = length xs + 1 \<and> list_size l' = list_size scenario_L2 + 1) \<and>
           (erasure op \<longrightarrow> length xs' + 1 = length xs \<and> list_size l' = list_size scenario_L2 - 1))"
    by blast
  have "live_nodes (max 2 (length xs)) scenario_L2 = Inr xs" using n by simp
  moreover have "live_nodes (max 2 (length xs)) scenario_L2 = Inr [2, 3]"
    by (rule live_nodes_wf[OF scenario_L2_wf]) simp
  ultimately have xs: "xs = [2, 3]" by simp
  from st[rule_format, of "Erase (Some 2)" 2] ok a obtain xs' where
    r: "reachable scenario_L1" and n1: "live_nodes (length xs') scenario_L1 = Inr xs'"
    and l1: "length xs' + 1 = length xs" and s1: "list_size scenario_L1 = list_size scenario_L2 - 1"
    unfolding xs by (auto simp: erasure_def)
  have "length xs' = 1" using l1 xs by simp
  with n1 live_nodes_wf[OF scenario_L1_wf, of 1] have "live_nodes 1 scenario_L1 = Inr [3]" by simp
  moreover have "live_nodes 2 scenario_L2 = Inr [2, 3]" using n xs by simp
  moreover have "list_size scenario_L2 = 2" using s xs by simp
  ultimately show ?thesis using r2 ok a r s1 by simp
qed


text \<open>
  The claim C9 as stated fails for an iterator that is erased twice: the iterator stays
  valid, the second \<^verbatim>\<open>erase\<close> unlinks nothing and takes one off the size all the same, and the
  list reports size 0 while it holds one live node.
\<close>

theorem double_erase_counterexample:
  "push_back 10 (list_init empty_list_store) = Inr scenario_L
   \<and> push_back 20 scenario_L = Inr scenario_L2
   \<and> list_begin scenario_L2 = Some 2
   \<and> list_erase (Some 2) scenario_L2 = Inr (Some 3, scenario_L1)
   \<and> live_nodes 1 scenario_L1 = Inr [3] \<and> list_size scenario_L1 = 1
   \<and> list_erase (Some 2) scenario_L1 = Inr (Some 3, scenario_L0)
   \<and> live_nodes 1 scenario_L0 = Inr [3] \<and> list_size scenario_L0 = 0"
  using scenario_L_push scenario_L2_push scenario_L2_begin scenario_L1_erase scenario_L0_erase
    scenario_L0_nodes scenario_L0_size live_nodes_wf[OF scenario_L1_wf, of 1] scenario_L1_wf
  by (simp add: list_wf_def list_size_def)


section \<open>What a slot does to the emission\<close>

lemma run_actions_append:
  "run_actions n C (pre @ post) s =
     (case run_actions n C pre s of
        Inl f \<Rightarrow> Inl f
      | Inr (thrown, s1) \<Rightarrow> if thrown then Inr (True, s1) else run_actions n C post s1)"
proof (induction pre arbitrary: s)
  case Nil
  then show ?case by simp
next
  case (Cons a pre)
  show ?case
  proof (cases a)
    case Throw
    then show ?thesis by simp
  next
    case (Invoke w)
    then show ?thesis using Cons.IH by (auto split: sum.splits)
  qed (use Cons.IH in \<open>auto split: sum.splits\<close>)
qed

lemma do_action_frame:
  assumes wf: "sig_wf s xs" and d: "do_action n a s = Inr s'"
  shows "current_connection s' = current_connection s \<and> head s' = head s \<and> tail s' = tail s
       \<and> (a \<noteq> AbortEmission \<longrightarrow> emission_aborted s' = emission_aborted s)
       \<and> (emission_aborted s \<longrightarrow> emission_aborted s')"
proof (cases a)
  case (Connect flags sl)
  with d obtain h where c: "connect sl flags s = Inr (h, s')"
    by (auto simp: do_action_def split: sum.splits)
  show ?thesis
  proof (cases "flags AND connect_as_first_slot = 0")
    case True
    from connect_back[OF wf True, of sl] c show ?thesis by (auto simp: same_thread_def Connect)
  next
    case False
    from connect_front[OF wf False, of sl] c show ?thesis by (auto simp: same_thread_def Connect)
  qed
next
  case (Disconnect b)
  with d have "disconnect b s = Inr s'"
    by (auto simp: do_action_def connection_disconnect_def split: sum.splits)
  from disconnect_wf[OF wf this] show ?thesis by (simp add: same_thread_def Disconnect)
next
  case DisconnectCurrent
  show ?thesis
  proof (cases "current_connection s")
    case None
    with d DisconnectCurrent show ?thesis by (simp add: do_action_def connection_disconnect_def)
  next
    case (Some b)
    with d DisconnectCurrent have "disconnect b s = Inr s'"
      by (auto simp: do_action_def connection_disconnect_def split: sum.splits)
    from disconnect_wf[OF wf this] show ?thesis by (simp add: same_thread_def DisconnectCurrent)
  qed
next
  case (Block b)
  with d show ?thesis by (auto simp: do_action_def connection_block_def)
next
  case (Unblock b)
  with d show ?thesis by (auto simp: do_action_def connection_unblock_def)
next
  case AbortEmission
  with d show ?thesis by (auto simp: do_action_def)
next
  case (Invoke w)
  with d show ?thesis by (auto simp: do_action_def)
next
  case Clear
  with d have c: "clear n s = Inr s'" by (simp add: do_action_def)
  from clear_wf[OF wf clear_fuel[OF wf c]] c show ?thesis by (auto simp: same_thread_def Clear)
next
  case Throw
  with d show ?thesis by (auto simp: do_action_def)
qed

lemma run_actions_flag:
  fixes C :: "(int, 'c, 'r) collector"
  shows "sig_wf s xs \<Longrightarrow> run_actions n C acts s = Inr (t, s') \<Longrightarrow>
     (emission_aborted s \<longrightarrow> emission_aborted s')
   \<and> (AbortEmission \<notin> set acts \<longrightarrow> emission_aborted s' = emission_aborted s)"
proof (induction acts arbitrary: s xs)
  case Nil
  then show ?case by simp
next
  case (Cons a acts)
  show ?case
  proof (cases "a = Throw")
    case True
    with Cons.prems show ?thesis by simp
  next
    case nthrow: False
    show ?thesis
    proof (cases "\<exists>w. a = Invoke w")
      case True
      then obtain w where a: "a = Invoke w" by blast
      from Cons.prems(2) obtain cs r s1 where i: "invoke n C w s = Inr (cs, r, s1)"
        by (auto simp: a split: sum.splits)
      from interp_evolves(2)[OF Cons.prems(1) i] obtain xs1 where wf1: "sig_wf s1 xs1"
        unfolding evolves_def by blast
      have f: "emission_aborted s1 = emission_aborted s" by (rule invoke_aborted[OF i])
      show ?thesis
      proof (cases r)
        case (Inl e)
        with Cons.prems(2) i have "s' = s1" by (simp add: a)
        then show ?thesis using f by simp
      next
        case (Inr x)
        with Cons.prems(2) i have "run_actions n C acts s1 = Inr (t, s')" by (simp add: a)
        from Cons.IH[OF wf1 this] f show ?thesis by (simp add: a)
      qed
    next
      case False
      with nthrow Cons.prems(2) obtain s1 where d: "do_action n a s = Inr s1"
        and rest: "run_actions n C acts s1 = Inr (t, s')"
        by (cases a) (auto split: sum.splits)
      from do_action_evolves[OF Cons.prems(1) d] obtain xs1 where wf1: "sig_wf s1 xs1"
        unfolding evolves_def by blast
      from Cons.IH[OF wf1 rest] do_action_frame[OF Cons.prems(1) d] show ?thesis by auto
    qed
  qed
qed

lemma interp_current_actions_step:
  fixes C :: "(int, 'c, 'r) collector"
  assumes B: "\<And>v s xs cs r s'. sig_wf s xs \<Longrightarrow> invoke n C v s = Inr (cs, r, s')
                \<Longrightarrow> current_connection s' = current_connection s"
  shows "sig_wf s xs \<Longrightarrow> run_actions n C acts s = Inr (t, s')
         \<Longrightarrow> current_connection s' = current_connection s"
proof (induction acts arbitrary: s xs)
  case Nil
  then show ?case by simp
next
  case (Cons a acts)
  show ?case
  proof (cases "a = Throw")
    case True
    with Cons.prems show ?thesis by simp
  next
    case nthrow: False
    show ?thesis
    proof (cases "\<exists>w. a = Invoke w")
      case True
      then obtain w where a: "a = Invoke w" by blast
      from Cons.prems(2) obtain cs r s1 where i: "invoke n C w s = Inr (cs, r, s1)"
        by (auto simp: a split: sum.splits)
      from interp_evolves(2)[OF Cons.prems(1) i] obtain xs1 where wf1: "sig_wf s1 xs1"
        unfolding evolves_def by blast
      have f: "current_connection s1 = current_connection s" by (rule B[OF Cons.prems(1) i])
      show ?thesis
      proof (cases r)
        case (Inl e)
        with Cons.prems(2) i have "s' = s1" by (simp add: a)
        then show ?thesis using f by simp
      next
        case (Inr x)
        with Cons.prems(2) i have "run_actions n C acts s1 = Inr (t, s')" by (simp add: a)
        from Cons.IH[OF wf1 this] f show ?thesis by simp
      qed
    next
      case False
      with nthrow Cons.prems(2) obtain s1 where d: "do_action n a s = Inr s1"
        and rest: "run_actions n C acts s1 = Inr (t, s')"
        by (cases a) (auto split: sum.splits)
      from do_action_evolves[OF Cons.prems(1) d] obtain xs1 where wf1: "sig_wf s1 xs1"
        unfolding evolves_def by blast
      from Cons.IH[OF wf1 rest] do_action_frame[OF Cons.prems(1) d] show ?thesis by auto
    qed
  qed
qed

lemma interp_current_invoke_step:
  fixes C :: "(int, 'c, 'r) collector"
  assumes A: "\<And>cur acc s xs acc' s'. sig_wf s xs \<Longrightarrow> invoke_loop n C v cur acc s = Inr (acc', s')
                \<Longrightarrow> current_connection s' = current_connection s"
    and wf: "sig_wf s xs" and run: "invoke n C v s = Inr (cs, r, s')"
  shows "current_connection s' = current_connection s"
proof -
  define s1 where "s1 = s\<lparr>emission_aborted := False\<rparr>"
  have wf1: "sig_wf s1 xs" using wf by (subst sig_wf_cong[of s1 s]) (simp_all add: s1_def)
  from run obtain acc' s2 where
    L: "invoke_loop n C v (c_next s1 (head s1)) (False, coll_init C, []) s1 = Inr (acc', s2)"
    and s': "s' = s2\<lparr>emission_aborted := emission_aborted s\<rparr>"
    by (auto simp: invoke.simps Let_def s1_def split: sum.splits if_splits)
  from A[OF wf1 L] show ?thesis by (simp add: s' s1_def)
qed

lemma interp_current_loop_step:
  fixes C :: "(int, 'c, 'r) collector"
  assumes D: "\<And>acts s xs t s'. sig_wf s xs \<Longrightarrow> run_actions m C acts s = Inr (t, s')
                \<Longrightarrow> current_connection s' = current_connection s"
    and A: "\<And>cur acc s xs acc' s'. sig_wf s xs \<Longrightarrow> invoke_loop m C v cur acc s = Inr (acc', s')
                \<Longrightarrow> current_connection s' = current_connection s"
    and wf: "sig_wf s xs" and run: "invoke_loop (Suc m) C v cur acc s = Inr (acc', s')"
  shows "current_connection s' = current_connection s"
proof (cases "cur = Some (tail s)")
  case True
  with run show ?thesis by (simp add: invoke_loop_tail)
next
  case nt: False
  show ?thesis
  proof (cases cur)
    case None
    with run show ?thesis by (simp add: invoke_loop_null)
  next
    case (Some c)
    with nt have ct: "c \<noteq> tail s" by simp
    show ?thesis
    proof (cases "is_connected s c \<and> \<not> is_blocked s c")
      case False
      with run Some ct have "invoke_loop m C v (c_next s c) acc s = Inr (acc', s')"
        by (simp add: invoke_loop_skip)
      then show ?thesis by (rule A[OF wf])
    next
      case True
      then have con: "is_connected s c" and nb: "\<not> is_blocked s c" by simp_all
      show ?thesis
      proof (cases "slot s c")
        case None
        with run Some ct con nb show ?thesis by (simp add: invoke_loop_nocast)
      next
        case sl: (Some sl)
        note eq = invoke_loop_call[OF ct con nb sl, of m C v acc]
        define sc where "sc = s\<lparr>current_connection := Some c, trace := trace s @ [Called c v]\<rparr>"
        have wfc: "sig_wf sc xs" using wf by (subst sig_wf_cong[of sc s]) (simp_all add: sc_def)
        from run[unfolded Some eq sc_def[symmetric]] obtain thrown s2 where
          r: "run_actions m C (body sl v) sc = Inr (thrown, s2)"
          by (auto split: sum.splits)
        from interp_evolves(3)[OF wfc r] obtain xs2 where wf2: "sig_wf s2 xs2"
          unfolding evolves_def by blast
        define s3 where "s3 = s2\<lparr>current_connection := current_connection s\<rparr>"
        have wf3: "sig_wf s3 xs2" using wf2 by (subst sig_wf_cong[of s3 s2]) (simp_all add: s3_def)
        show ?thesis
        proof (cases "emission_aborted s2")
          case True
          with run[unfolded Some eq sc_def[symmetric]] r have "s' = s3"
            by (simp add: Let_def s3_def)
          then show ?thesis by (simp add: s3_def)
        next
          case False
          with run[unfolded Some eq sc_def[symmetric]] r obtain acc1 where
            "invoke_loop m C v (c_next s3 c) acc1 s3 = Inr (acc', s')"
            by (simp add: Let_def s3_def)
          from A[OF wf3 this] show ?thesis by (simp add: s3_def)
        qed
      qed
    qed
  qed
qed

lemma interp_current:
  fixes C :: "(int, 'c, 'r) collector"
  shows "(\<forall>v cur acc s xs acc' s'. sig_wf s xs \<longrightarrow>
            invoke_loop n C v cur acc s = Inr (acc', s') \<longrightarrow> current_connection s' = current_connection s)
       \<and> (\<forall>v s xs cs r s'. sig_wf s xs \<longrightarrow> invoke n C v s = Inr (cs, r, s')
            \<longrightarrow> current_connection s' = current_connection s)
       \<and> (\<forall>acts s xs t s'. sig_wf s xs \<longrightarrow> run_actions n C acts s = Inr (t, s')
            \<longrightarrow> current_connection s' = current_connection s)"
proof (induction n)
  case 0
  have A: "current_connection s' = current_connection s"
    if "sig_wf s xs" "invoke_loop 0 C v cur acc s = Inr (acc', s')" for v cur acc s xs acc' s'
    using that by (cases "cur = Some (tail s)") (auto simp: invoke_loop_tail invoke_loop_0)
  have B: "current_connection s' = current_connection s"
    if "sig_wf s xs" "invoke 0 C v s = Inr (cs, r, s')" for v s xs cs r s'
    by (rule interp_current_invoke_step[OF A that])
  have D: "current_connection s' = current_connection s"
    if "sig_wf s xs" "run_actions 0 C acts s = Inr (t, s')" for acts s xs t s'
    by (rule interp_current_actions_step[OF B that])
  show ?case using A B D by blast
next
  case (Suc m)
  from Suc.IH have Am: "\<And>v cur acc s xs acc' s'. sig_wf s xs \<Longrightarrow>
            invoke_loop m C v cur acc s = Inr (acc', s') \<Longrightarrow> current_connection s' = current_connection s"
    and Dm: "\<And>acts s xs t s'. sig_wf s xs \<Longrightarrow> run_actions m C acts s = Inr (t, s')
            \<Longrightarrow> current_connection s' = current_connection s"
    by blast+
  have A: "current_connection s' = current_connection s"
    if "sig_wf s xs" "invoke_loop (Suc m) C v cur acc s = Inr (acc', s')" for v cur acc s xs acc' s'
    by (rule interp_current_loop_step[OF Dm Am that])
  have B: "current_connection s' = current_connection s"
    if "sig_wf s xs" "invoke (Suc m) C v s = Inr (cs, r, s')" for v s xs cs r s'
    by (rule interp_current_invoke_step[OF A that])
  have D: "current_connection s' = current_connection s"
    if "sig_wf s xs" "run_actions (Suc m) C acts s = Inr (t, s')" for acts s xs t s'
    by (rule interp_current_actions_step[OF B that])
  show ?case using A B D by blast
qed

lemma call_state_wf: "sig_wf s xs \<Longrightarrow> sig_wf (call_state c v s) xs"
  by (subst sig_wf_cong[of "call_state c v s" s]) (simp_all add: call_state_def)

lemma call_state_simps [simp]:
  "emission_aborted (call_state c v s) = emission_aborted s"
  "current_connection (call_state c v s) = Some c"
  "trace (call_state c v s) = trace s @ [Called c v]"
  "head (call_state c v s) = head s" "tail (call_state c v s) = tail s"
  "brk (call_state c v s) = brk s" "slot (call_state c v s) = slot s"
  "is_blocked (call_state c v s) = is_blocked s"
  "c_next (call_state c v s) = c_next s" "c_prev (call_state c v s) = c_prev s"
  by (simp_all add: call_state_def)

lemma invoke_loop_call':
  "c \<noteq> tail s \<Longrightarrow> is_connected s c \<Longrightarrow> \<not> is_blocked s c \<Longrightarrow> slot s c = Some sl
   \<Longrightarrow> run_actions m C (body sl v) (call_state c v s) = Inr (thrown, s2)
   \<Longrightarrow> invoke_loop (Suc m) C v (Some c) acc s =
     (if emission_aborted s2
      then Inr (feed C [(c, if thrown then None else Some (ret sl v))] acc,
                s2\<lparr>current_connection := current_connection s\<rparr>)
      else invoke_loop m C v (c_next s2 c) (feed C [(c, if thrown then None else Some (ret sl v))] acc)
             (s2\<lparr>current_connection := current_connection s\<rparr>))"
  by (simp add: invoke_loop_call call_state_def Let_def)

lemma invoke_loop_call_run:
  assumes "c \<noteq> tail s" "is_connected s c" "\<not> is_blocked s c" "slot s c = Some sl"
    and run: "invoke_loop (Suc m) C v (Some c) acc s = Inr (acc', s')"
  shows "\<exists>thrown s2. run_actions m C (body sl v) (call_state c v s) = Inr (thrown, s2)"
  using run unfolding invoke_loop_call[OF assms(1-4)] call_state_def
  by (auto split: sum.splits)


lemma abort_ends_loop:
  fixes C :: "(int, 'c, 'r) collector"
  assumes wf: "sig_wf s xs"
    and h: "c \<noteq> tail s" "is_connected s c" "\<not> is_blocked s c" "slot s c = Some sl"
    and b: "body sl v = pre @ AbortEmission # post"
    and p: "run_actions m C pre (call_state c v s) = Inr (False, s1)"
    and r: "run_actions m C (body sl v) (call_state c v s) = Inr (thrown, s2)"
  shows "invoke_loop (Suc m) C v (Some c) acc s =
           Inr (feed C [(c, if thrown then None else Some (ret sl v))] acc,
                s2\<lparr>current_connection := current_connection s\<rparr>)"
proof -
  from interp_evolves(3)[OF call_state_wf[OF wf] p] obtain xs1 where wf1: "sig_wf s1 xs1"
    unfolding evolves_def by blast
  define s1' where "s1' = s1\<lparr>emission_aborted := True\<rparr>"
  have wf1': "sig_wf s1' xs1" using wf1 by (subst sig_wf_cong[of s1' s1]) (simp_all add: s1'_def)
  have "run_actions m C post s1' = Inr (thrown, s2)"
    using r unfolding b run_actions_append p by (simp add: do_action_def s1'_def)
  from run_actions_flag[OF wf1' this] have "emission_aborted s2" by (simp add: s1'_def)
  then show ?thesis unfolding invoke_loop_call'[OF h r] by simp
qed

lemma no_abort_continues:
  fixes C :: "(int, 'c, 'r) collector"
  assumes wf: "sig_wf s xs"
    and h: "c \<noteq> tail s" "is_connected s c" "\<not> is_blocked s c" "slot s c = Some sl"
    and b: "AbortEmission \<notin> set (body sl v)" and na: "\<not> emission_aborted s"
    and r: "run_actions m C (body sl v) (call_state c v s) = Inr (thrown, s2)"
  shows "invoke_loop (Suc m) C v (Some c) acc s =
           invoke_loop m C v (c_next s2 c) (feed C [(c, if thrown then None else Some (ret sl v))] acc)
             (s2\<lparr>current_connection := current_connection s\<rparr>)"
proof -
  from run_actions_flag[OF call_state_wf[OF wf] r] b na have "\<not> emission_aborted s2" by simp
  then show ?thesis unfolding invoke_loop_call'[OF h r] by simp
qed

lemma throw_continues:
  assumes h: "c \<noteq> tail s" "is_connected s c" "\<not> is_blocked s c" "slot s c = Some sl"
    and r: "run_actions m C (body sl v) (call_state c v s) = Inr (True, s2)"
    and na: "\<not> emission_aborted s2"
  shows "invoke_loop (Suc m) C v (Some c) (error, collector, cs) s =
           invoke_loop m C v (c_next s2 c) (True, collector, cs @ [(c, None)])
             (s2\<lparr>current_connection := current_connection s\<rparr>)"
  unfolding invoke_loop_call'[OF h r] using na by (simp add: feed_single)

lemma self_disconnect:
  fixes C :: "(int, 'c, 'r) collector"
  assumes wf: "sig_wf s xs"
    and h: "c \<noteq> tail s" "is_connected s c" "\<not> is_blocked s c" "slot s c = Some sl"
    and b: "body sl v = pre @ DisconnectCurrent # post"
    and p: "run_actions m C pre (call_state c v s) = Inr (False, s1)"
    and run: "invoke_loop (Suc m) C v (Some c) acc s = Inr (acc', s')"
  shows "\<not> is_connected s' c \<and> (\<forall>w. Called c w \<notin> set (drop (length (trace s1)) (trace s')))"
proof -
  note wfc = call_state_wf[OF wf, of c v]
  have cb: "c < brk s" using h(1,2) wf unfolding is_connected_iff[OF wf] by (auto simp: sig_wf_def)
  have e1: "evolves (call_state c v s) s1" by (rule interp_evolves(3)[OF wfc p])
  then obtain xs1 where wf1: "sig_wf s1 xs1" unfolding evolves_def by blast
  have cur1: "current_connection s1 = Some c"
    using interp_current[of m C, THEN conjunct2, THEN conjunct2, rule_format, OF wfc p] by simp
  have b1: "brk s \<le> brk s1" "tail s1 = tail s" using e1 by (simp_all add: evolves_def)
  from invoke_loop_call_run[OF h run] obtain thrown s2 where
    r: "run_actions m C (body sl v) (call_state c v s) = Inr (thrown, s2)" by blast
  then have r': "run_actions m C (DisconnectCurrent # post) s1 = Inr (thrown, s2)"
    unfolding b run_actions_append p by simp
  then obtain s1' where d: "disconnect c s1 = Inr s1'"
    and po: "run_actions m C post s1' = Inr (thrown, s2)"
    by (auto simp: do_action_def connection_disconnect_def cur1 split: sum.splits)
  from disconnect_wf[OF wf1 d] have wf1': "sig_wf s1' (removeAll c xs1)"
    and e: "brk s1' = brk s1" "same_thread s1 s1'" "trace s1' = trace s1" by simp_all
  have dc: "\<not> is_connected s1' c"
    unfolding is_connected_iff[OF wf1'] using h(1) b1 e by (simp add: same_thread_def)
  have cb': "c < brk s1'" using cb b1 e by simp
  have e2: "evolves s1' s2" by (rule interp_evolves(3)[OF wf1' po])
  then obtain xs2 where wf2: "sig_wf s2 xs2" unfolding evolves_def by blast
  define s3 where "s3 = s2\<lparr>current_connection := current_connection s\<rparr>"
  have e3: "evolves s2 s3" by (rule evolves_same[OF wf2]) (simp_all add: s3_def)
  then obtain xs3 where wf3: "sig_wf s3 xs3" unfolding evolves_def by blast
  have "evolves s3 s'"
  proof (cases "emission_aborted s2")
    case True
    then have "s' = s3" using run unfolding invoke_loop_call'[OF h r] by (simp add: s3_def)
    then show ?thesis using evolves_refl[OF wf3] by simp
  next
    case False
    then have "invoke_loop m C v (c_next s2 c)
         (feed C [(c, if thrown then None else Some (ret sl v))] acc) s3 = Inr (acc', s')"
      using run unfolding invoke_loop_call'[OF h r] by (simp add: s3_def)
    then show ?thesis by (rule interp_evolves(1)[OF wf3])
  qed
  then have "evolves s1' s'" using e2 e3 evolves_trans by blast
  from evolves_disconnected[OF this cb' dc] show ?thesis by (simp add: e)
qed

section \<open>Slot errors\<close>

lemma scenario_AT_facts:
  "sig_wf scenario_AT [2, 3]" "tame (slot scenario_AT) v [2, 3]"
  "outcome (slot scenario_AT) v 2 = (2, None)" "outcome (slot scenario_AT) v 3 = (3, Some v)"
  "\<not> is_blocked scenario_AT 2" "\<not> is_blocked scenario_AT 3"
  "aborts (slot scenario_AT) v 2" "throws (slot scenario_AT) v 2"
  using connect_all_wf[OF new_signal_wf, of "[Slot (\<lambda>x. [AbortEmission, Throw]) (\<lambda>x. x), Slot (\<lambda>x. []) (\<lambda>x. x)]"]
  by (auto simp: scenario_AT_def upt_rec tame_def slot_effect_def outcome_def throws_def aborts_def)

lemma raised_outcome_iff:
  "tame S v ys \<Longrightarrow> (\<exists>c\<in>set (map (outcome S v) ys). snd c = None) = (\<exists>y\<in>set ys. throws S v y)"
  using raised_outcome[of S v ys] by (simp add: raised_iff)

lemma tame_upto_abort: "tame S v ys \<Longrightarrow> tame S v (upto_abort ab (filter P ys))"
proof (induction ys)
  case Nil
  then show ?case by (simp add: tame_def)
next
  case (Cons y ys)
  then show ?case by (auto simp: tame_def)
qed

text \<open>
  C5 (amended).  An emission that returns raises \<^verbatim>\<open>invocation_slot_error\<close> exactly when one
  of the slots it called threw.  When a slot throws and the emission is not aborted, the
  loop goes on with the node after it, with the error recorded and the collector as it
  was.  Over slots that do nothing to the signal but throw or abort the emission, the
  emission calls, in order, every connected slot that is not blocked, up to the first that
  aborts, whether or not slots before it threw, and raises exactly when one of the slots
  called throws.
\<close>

theorem slot_errors_isolated:
  "(invoke n C v s = Inr (cs, r, s') \<longrightarrow>
      (r = Inl Invocation_slot_error) = (\<exists>c\<in>set cs. snd c = None))
   \<and> (c \<noteq> tail t \<and> is_connected t c \<and> \<not> is_blocked t c \<and> slot t c = Some sl
        \<and> run_actions m C (body sl v) (call_state c v t) = Inr (True, t2)
        \<and> \<not> emission_aborted t2 \<longrightarrow>
        invoke_loop (Suc m) C v (Some c) (error, collector, cs0) t =
          invoke_loop m C v (c_next t2 c) (True, collector, cs0 @ [(c, None)])
            (t2\<lparr>current_connection := current_connection t\<rparr>))
   \<and> (sig_wf s xs \<and> tame (slot s) v xs \<longrightarrow>
       (\<exists>r s'. invoke (length xs + k) C v s =
                 Inr (map (outcome (slot s) v)
                        (upto_abort (aborts (slot s) v) (filter (\<lambda>y. \<not> is_blocked s y) xs)), r, s')
          \<and> (r = Inl Invocation_slot_error)
              = (\<exists>y\<in>set (upto_abort (aborts (slot s) v) (filter (\<lambda>y. \<not> is_blocked s y) xs)).
                    throws (slot s) v y)))"
proof -
  have p1: "(r = Inl Invocation_slot_error) = (\<exists>c\<in>set cs. snd c = None)"
    if a: "invoke n C v s = Inr (cs, r, s')"
    using invoke_outcome[OF a] by (auto simp: raised_iff)
  have p2: "invoke_loop (Suc m) C v (Some c) (error, collector, cs0) t =
          invoke_loop m C v (c_next t2 c) (True, collector, cs0 @ [(c, None)])
            (t2\<lparr>current_connection := current_connection t\<rparr>)"
    if "c \<noteq> tail t" "is_connected t c" "\<not> is_blocked t c" "slot t c = Some sl"
      "run_actions m C (body sl v) (call_state c v t) = Inr (True, t2)" "\<not> emission_aborted t2"
    using that by (rule throw_continues)
  have p3: "\<exists>r s'. invoke (length xs + k) C v s =
                 Inr (map (outcome (slot s) v)
                        (upto_abort (aborts (slot s) v) (filter (\<lambda>y. \<not> is_blocked s y) xs)), r, s')
          \<and> (r = Inl Invocation_slot_error)
              = (\<exists>y\<in>set (upto_abort (aborts (slot s) v) (filter (\<lambda>y. \<not> is_blocked s y) xs)).
                    throws (slot s) v y)"
    if wf: "sig_wf s xs" and t: "tame (slot s) v xs"
  proof -
    define ex where "ex = upto_abort (aborts (slot s) v) (filter (\<lambda>y. \<not> is_blocked s y) xs)"
    have te: "tame (slot s) v ex" unfolding ex_def by (rule tame_upto_abort[OF t])
    show ?thesis
      unfolding invoke_tame[OF wf t, of k C] ex_def[symmetric]
      using raised_outcome[OF te] by auto
  qed
  show ?thesis using p1 p2 p3 by blast
qed

lemma scenario_T_slots:
  "slot scenario_T 3 = Some (Slot (\<lambda>x. [Throw]) (\<lambda>x. x))" "throws (slot scenario_T) v 3"
  "tail scenario_T = 1" "\<not> emission_aborted scenario_T"
  using connect_all_wf[OF new_signal_wf, of "[Slot (\<lambda>x. []) (\<lambda>x. x + 1), Slot (\<lambda>x. [Throw]) (\<lambda>x. x),
                              Slot (\<lambda>x. []) (\<lambda>x. 2 * x)]"]
  by (simp_all add: scenario_T_def same_thread_def throws_def slot_effect_def)

theorem slot_errors_isolated_witness:
  "sig_wf scenario_T [2, 3, 4] \<and> tame (slot scenario_T) 5 [2, 3, 4]
   \<and> (\<exists>s'. invoke 3 default_collector 5 scenario_T =
          Inr ([(2, Some 6), (3, None), (4, Some 10)], Inl Invocation_slot_error, s'))
   \<and> 3 \<noteq> tail scenario_T \<and> is_connected scenario_T 3 \<and> \<not> is_blocked scenario_T 3
   \<and> slot scenario_T 3 = Some (Slot (\<lambda>x. [Throw]) (\<lambda>x. x))
   \<and> run_actions 1 default_collector (body (Slot (\<lambda>x. [Throw]) (\<lambda>x. x)) 5) (call_state 3 5 scenario_T)
        = Inr (True, call_state 3 5 scenario_T)
   \<and> \<not> emission_aborted (call_state 3 5 scenario_T)
   \<and> invoke_loop (Suc 1) default_collector 5 (Some 3) (False, Some 6, [(2, Some 6)]) scenario_T =
       invoke_loop 1 default_collector 5 (c_next (call_state 3 5 scenario_T) 3)
         (True, Some 6, [(2, Some 6)] @ [(3, None)])
         ((call_state 3 5 scenario_T)\<lparr>current_connection := current_connection scenario_T\<rparr>)"
proof -
  let ?C = "default_collector :: (int, int option, int option) collector"
  let ?sl = "Slot (\<lambda>x. [Throw]) (\<lambda>x. x)"
  have h: "3 \<noteq> tail scenario_T" "is_connected scenario_T 3" "\<not> is_blocked scenario_T 3"
    "slot scenario_T 3 = Some ?sl"
    using sig_wf_connected[OF scenario_T_facts(1), of 3] scenario_T_facts(7) scenario_T_slots
    by simp_all
  have ra: "run_actions 1 ?C (body ?sl 5) (call_state 3 5 scenario_T) = Inr (True, call_state 3 5 scenario_T)"
    by simp
  have na: "\<not> emission_aborted (call_state 3 5 scenario_T)" by (simp add: scenario_T_slots)
  note T = slot_errors_isolated[where C="?C" and v=5 and s=scenario_T and xs="[2, 3, 4]"
      and k=0 and c=3 and t=scenario_T and sl="?sl" and m=1 and ?t2.0="call_state 3 5 scenario_T"
      and error=False and collector="Some 6" and ?cs0.0="[(2, Some 6)]"]
  have f: "length [2 :: addr, 3, 4] + 0 = 3" by simp
  have ex: "upto_abort (aborts (slot scenario_T) 5) (filter (\<lambda>y. \<not> is_blocked scenario_T y) [2, 3, 4])
            = [2, 3, 4]"
    by (simp add: scenario_T_facts)
  from T[THEN conjunct2, THEN conjunct2, unfolded f ex] scenario_T_facts(1,2)
  obtain r s' where i: "invoke 3 ?C 5 scenario_T = Inr (map (outcome (slot scenario_T) 5) [2, 3, 4], r, s')"
    and r: "(r = Inl Invocation_slot_error) = (\<exists>y\<in>set [2, 3, 4]. throws (slot scenario_T) 5 y)"
    by blast
  have "r = Inl Invocation_slot_error" using r scenario_T_slots(2)[of 5] by simp
  with i have 1: "\<exists>s'. invoke 3 ?C 5 scenario_T =
          Inr ([(2, Some 6), (3, None), (4, Some 10)], Inl Invocation_slot_error, s')"
    by (simp add: scenario_T_facts)
  from T[THEN conjunct2, THEN conjunct1] h ra na
  have 2: "invoke_loop (Suc 1) ?C 5 (Some 3) (False, Some 6, [(2, Some 6)]) scenario_T =
       invoke_loop 1 ?C 5 (c_next (call_state 3 5 scenario_T) 3)
         (True, Some 6, [(2, Some 6)] @ [(3, None)])
         ((call_state 3 5 scenario_T)\<lparr>current_connection := current_connection scenario_T\<rparr>)"
    by blast
  show ?thesis using scenario_T_facts(1,2) 1 h ra na 2 by blast
qed

text \<open>
  The claim C5 as stated fails when the slot that throws has aborted the emission: the
  emission raises, and the second slot, connected and not blocked, is not called.
\<close>

theorem slot_error_abort_counterexample:
  "invoke 2 default_collector 1 scenario_AT =
     Inr ([(2, None)], Inl Invocation_slot_error, scenario_AT\<lparr>trace := trace scenario_AT @ [Called 2 1]\<rparr>)
   \<and> connection_is_connected (Some 3) (scenario_AT\<lparr>trace := trace scenario_AT @ [Called 2 1]\<rparr>)
   \<and> \<not> connection_is_blocked (Some 3) (scenario_AT\<lparr>trace := trace scenario_AT @ [Called 2 1]\<rparr>)"
proof -
  let ?C = "default_collector :: (int, int option, int option) collector"
  let ?s1 = "scenario_AT\<lparr>trace := trace scenario_AT @ [Called 2 1]\<rparr>"
  have wf1: "sig_wf ?s1 [2, 3]"
    using scenario_AT_facts(1) by (subst sig_wf_cong[of ?s1 scenario_AT]) simp_all
  have f: "length [2 :: addr, 3] + 0 = 2" by simp
  have 1: "invoke 2 ?C 1 scenario_AT = Inr ([(2, None)], Inl Invocation_slot_error, ?s1)"
    unfolding invoke_tame[OF scenario_AT_facts(1,2), where n=0 and C="?C" and v=1, unfolded f]
    by (simp add: scenario_AT_facts raised_def)
  have 3: "connection_is_connected (Some 3) ?s1"
    using sig_wf_connected[OF wf1, of 3] by (simp add: connection_is_connected_def)
  have 4: "\<not> connection_is_blocked (Some 3) ?s1"
    by (simp add: connection_is_blocked_def scenario_AT_facts)
  show ?thesis using 1 3 4 by blast
qed

section \<open>Blocking and the order of the calls\<close>

lemmas scenario_eval = connect_all.simps connect_def make_link_def new_connection_base_def
  new_signal_def init_def empty_store_def Let_def invoke.simps invoke_loop.simps
  is_connected_def do_action_def connection_disconnect_def disconnect_def
  connection_block_def connection_unblock_def connection_is_connected_def
  connection_is_blocked_def default_collector_def last_call_def
  connect_as_first_slot_def direct_connection_def









section \<open>Aborting an emission\<close>

lemma scenario_E_slots:
  "slot scenario_E 2 = Some (Slot (\<lambda>x. [AbortEmission]) (\<lambda>x. x))"
  "tail scenario_E = 1" "\<not> emission_aborted scenario_E"
  using connect_all_wf[OF new_signal_wf, of "[Slot (\<lambda>x. [AbortEmission]) (\<lambda>x. x), Slot (\<lambda>x. []) (\<lambda>x. x)]"]
  by (simp_all add: scenario_E_def same_thread_def)

lemma scenario_N_reenter:
  "map_sum id fst (run_actions 3 default_collector [Invoke 1] (call_state 2 0 scenario_N)) = Inr False"
  by (simp add: scenario_N_def call_state_def scenario_eval numeral_nat)

text \<open>
  C4 (amended).  When a slot's body reaches \<^verbatim>\<open>abort_emission()\<close> and returns or throws, the
  loop ends with that call: no later slot of the emission is called.  \<^verbatim>\<open>abort_emission()\<close>
  changes the abort flag and nothing else.  Over slots that do nothing to the signal but
  throw or abort the emission, when a slot that is not blocked aborts, the emission calls
  the unblocked slots before it and that slot; the list, the slots and the blocked flags
  are as before, and an emission that follows calls the unblocked slots of the whole list
  up to the first that aborts it.  An emission leaves the abort flag as it found it; so a
  slot whose body has no \<^verbatim>\<open>abort_emission()\<close> of its own, whatever it invokes, leaves the
  flag unset, and the loop of the enclosing emission goes on with the next node.
\<close>

theorem abort_emission_innermost:
  "(sig_wf t ys \<and> c \<noteq> tail t \<and> is_connected t c \<and> \<not> is_blocked t c \<and> slot t c = Some sl
      \<and> body sl v = pre @ AbortEmission # post
      \<and> run_actions m C pre (call_state c v t) = Inr (False, t1)
      \<and> run_actions m C (body sl v) (call_state c v t) = Inr (thrown, t2) \<longrightarrow>
      invoke_loop (Suc m) C v (Some c) acc t =
        Inr (feed C [(c, if thrown then None else Some (ret sl v))] acc,
             t2\<lparr>current_connection := current_connection t\<rparr>))
   \<and> do_action n AbortEmission t = Inr (t\<lparr>emission_aborted := True\<rparr>)
   \<and> (sig_wf s (us @ a # vs) \<and> tame (slot s) v (us @ a # vs)
      \<and> (\<forall>u\<in>set us. \<not> aborts (slot s) v u) \<and> aborts (slot s) v a \<and> \<not> is_blocked s a \<longrightarrow>
      (\<exists>r s'. invoke (length (us @ a # vs) + k) C v s =
                 Inr (map (outcome (slot s) v) (filter (\<lambda>y. \<not> is_blocked s y) us @ [a]), r, s')
          \<and> sig_wf s' (us @ a # vs) \<and> slot s' = slot s \<and> is_blocked s' = is_blocked s
          \<and> (tame (slot s) w (us @ a # vs) \<longrightarrow>
               (\<exists>r' s''. invoke (length (us @ a # vs) + k) C w s' =
                  Inr (map (outcome (slot s) w)
                         (upto_abort (aborts (slot s) w)
                            (filter (\<lambda>y. \<not> is_blocked s y) (us @ a # vs))), r', s'')))))
   \<and> (invoke n C w t = Inr (cs, r, t') \<longrightarrow> emission_aborted t' = emission_aborted t)
   \<and> (sig_wf t ys \<and> c \<noteq> tail t \<and> is_connected t c \<and> \<not> is_blocked t c \<and> slot t c = Some sl
      \<and> AbortEmission \<notin> set (body sl v) \<and> \<not> emission_aborted t
      \<and> run_actions m C (body sl v) (call_state c v t) = Inr (thrown, t2) \<longrightarrow>
      invoke_loop (Suc m) C v (Some c) acc t =
        invoke_loop m C v (c_next t2 c) (feed C [(c, if thrown then None else Some (ret sl v))] acc)
          (t2\<lparr>current_connection := current_connection t\<rparr>))"
proof -
  have p1: "invoke_loop (Suc m) C v (Some c) acc t =
        Inr (feed C [(c, if thrown then None else Some (ret sl v))] acc,
             t2\<lparr>current_connection := current_connection t\<rparr>)"
    if "sig_wf t ys" "c \<noteq> tail t" "is_connected t c" "\<not> is_blocked t c" "slot t c = Some sl"
      "body sl v = pre @ AbortEmission # post"
      "run_actions m C pre (call_state c v t) = Inr (False, t1)"
      "run_actions m C (body sl v) (call_state c v t) = Inr (thrown, t2)"
    using that by (rule abort_ends_loop)
  have p2: "do_action n AbortEmission t = Inr (t\<lparr>emission_aborted := True\<rparr>)"
    by (simp add: do_action_def)
  have p3: "\<exists>r s'. invoke (length (us @ a # vs) + k) C v s =
                 Inr (map (outcome (slot s) v) (filter (\<lambda>y. \<not> is_blocked s y) us @ [a]), r, s')
          \<and> sig_wf s' (us @ a # vs) \<and> slot s' = slot s \<and> is_blocked s' = is_blocked s
          \<and> (tame (slot s) w (us @ a # vs) \<longrightarrow>
               (\<exists>r' s''. invoke (length (us @ a # vs) + k) C w s' =
                  Inr (map (outcome (slot s) w)
                         (upto_abort (aborts (slot s) w)
                            (filter (\<lambda>y. \<not> is_blocked s y) (us @ a # vs))), r', s'')))"
    if wf: "sig_wf s (us @ a # vs)" and tv: "tame (slot s) v (us @ a # vs)"
      and na: "\<forall>u\<in>set us. \<not> aborts (slot s) v u" and ab: "aborts (slot s) v a"
      and nb: "\<not> is_blocked s a"
  proof -
    have u: "upto_abort (aborts (slot s) v) (filter (\<lambda>y. \<not> is_blocked s y) (us @ a # vs))
           = filter (\<lambda>y. \<not> is_blocked s y) us @ [a]"
      using na ab nb upto_abort_at[of "filter (\<lambda>y. \<not> is_blocked s y) us" "aborts (slot s) v" a]
      by simp
    from invoke_tame_wf[OF wf tv, of k C] obtain r s' where
      i: "invoke (length (us @ a # vs) + k) C v s =
            Inr (map (outcome (slot s) v) (filter (\<lambda>y. \<not> is_blocked s y) us @ [a]), r, s')"
      and wf': "sig_wf s' (us @ a # vs)" and sl: "slot s' = slot s"
      and bl: "is_blocked s' = is_blocked s"
      unfolding u by blast
    have "\<exists>r' s''. invoke (length (us @ a # vs) + k) C w s' =
                  Inr (map (outcome (slot s) w)
                         (upto_abort (aborts (slot s) w)
                            (filter (\<lambda>y. \<not> is_blocked s y) (us @ a # vs))), r', s'')"
      if "tame (slot s) w (us @ a # vs)"
      using invoke_tame_wf[OF wf', of w k C] that unfolding sl bl by blast
    then show ?thesis using i wf' sl bl by blast
  qed
  have p4: "emission_aborted t' = emission_aborted t" if "invoke n C w t = Inr (cs, r, t')"
    using that by (rule invoke_aborted)
  have p5: "invoke_loop (Suc m) C v (Some c) acc t =
        invoke_loop m C v (c_next t2 c) (feed C [(c, if thrown then None else Some (ret sl v))] acc)
          (t2\<lparr>current_connection := current_connection t\<rparr>)"
    if "sig_wf t ys" "c \<noteq> tail t" "is_connected t c" "\<not> is_blocked t c" "slot t c = Some sl"
      "AbortEmission \<notin> set (body sl v)" "\<not> emission_aborted t"
      "run_actions m C (body sl v) (call_state c v t) = Inr (thrown, t2)"
    using that by (rule no_abort_continues)
  show ?thesis using p1 p2 p3 p4 p5 by blast
qed

theorem abort_emission_innermost_witness:
  "sig_wf scenario_E [2, 3] \<and> 2 \<noteq> tail scenario_E \<and> is_connected scenario_E 2
   \<and> \<not> is_blocked scenario_E 2
   \<and> slot scenario_E 2 = Some (Slot (\<lambda>x. [AbortEmission]) (\<lambda>x. x))
   \<and> invoke_loop (Suc 1) default_collector 1 (Some 2) (False, None, []) scenario_E =
       Inr (feed default_collector [(2, Some 1)] (False, None, []),
            (call_state 2 1 scenario_E)\<lparr>emission_aborted := True,
               current_connection := current_connection scenario_E\<rparr>)
   \<and> sig_wf scenario_N ([2] @ 3 # [4]) \<and> tame (slot scenario_N) 1 ([2] @ 3 # [4])
   \<and> \<not> aborts (slot scenario_N) 1 2 \<and> aborts (slot scenario_N) 1 3 \<and> \<not> is_blocked scenario_N 3
   \<and> (\<exists>r s'. invoke 3 default_collector 1 scenario_N =
          Inr ([outcome (slot scenario_N) 1 2, outcome (slot scenario_N) 1 3], r, s')
        \<and> (\<exists>r' s''. invoke 3 default_collector 2 s' =
              Inr (map (outcome (slot scenario_N) 2) [2, 3, 4], r', s'')))
   \<and> 2 \<noteq> tail scenario_N \<and> is_connected scenario_N 2 \<and> \<not> is_blocked scenario_N 2
   \<and> slot scenario_N 2 = Some (Slot (\<lambda>x. if x = 0 then [Invoke 1] else []) (\<lambda>x. x))
   \<and> \<not> emission_aborted scenario_N
   \<and> (\<exists>t2. run_actions 3 default_collector [Invoke 1] (call_state 2 0 scenario_N) = Inr (False, t2)
        \<and> invoke_loop (Suc 3) default_collector 0 (Some 2) (False, None, []) scenario_N =
           invoke_loop 3 default_collector 0 (c_next t2 2)
            (feed default_collector [(2, Some 0)] (False, None, []))
            (t2\<lparr>current_connection := current_connection scenario_N\<rparr>))"
proof -
  let ?C = "default_collector :: (int, int option, int option) collector"
  let ?nil = "(False, None, []) :: bool \<times> int option \<times> calls"
  let ?sE = "Slot (\<lambda>x. [AbortEmission]) (\<lambda>x. x)"
  let ?sN = "Slot (\<lambda>x. if x = 0 then [Invoke 1] else []) (\<lambda>x. x)"
  have hE: "sig_wf scenario_E [2, 3]" "2 \<noteq> tail scenario_E" "is_connected scenario_E 2"
    "\<not> is_blocked scenario_E 2" "slot scenario_E 2 = Some ?sE"
    using sig_wf_connected[OF scenario_E_facts(1), of 2] scenario_E_facts(1,5) scenario_E_slots
    by simp_all
  have rE: "run_actions 1 ?C [] (call_state 2 1 scenario_E) = Inr (False, call_state 2 1 scenario_E)"
    "run_actions 1 ?C (body ?sE 1) (call_state 2 1 scenario_E)
       = Inr (False, (call_state 2 1 scenario_E)\<lparr>emission_aborted := True\<rparr>)"
    "body ?sE 1 = [] @ AbortEmission # []"
    by (simp_all add: do_action_def)
  from abort_emission_innermost[where t=scenario_E and ys="[2, 3]" and c=2 and sl="?sE" and v=1
      and pre="[]" and post="[]" and m=1 and C="?C" and ?t1.0="call_state 2 1 scenario_E"
      and thrown=False and ?t2.0="(call_state 2 1 scenario_E)\<lparr>emission_aborted := True\<rparr>"
      and acc="?nil", THEN conjunct1] hE rE
  have 1: "invoke_loop (Suc 1) ?C 1 (Some 2) ?nil scenario_E =
       Inr (feed ?C [(2, Some 1)] ?nil,
            (call_state 2 1 scenario_E)\<lparr>emission_aborted := True,
               current_connection := current_connection scenario_E\<rparr>)"
    by simp
  have f: "length ([2 :: addr] @ 3 # [4]) + 0 = 3" by simp
  have wf: "sig_wf scenario_N ([2] @ 3 # [4])" using scenario_N_facts(1) by simp
  have t1: "tame (slot scenario_N) 1 ([2] @ 3 # [4])" using scenario_N_facts(2)[of 1] by simp
  have t2: "tame (slot scenario_N) 2 ([2] @ 3 # [4])" using scenario_N_facts(2)[of 2] by simp
  have h: "\<forall>u\<in>set [2]. \<not> aborts (slot scenario_N) 1 u" "aborts (slot scenario_N) 1 3"
    "\<not> is_blocked scenario_N 3"
    by (simp_all add: scenario_N_facts)
  have u2: "upto_abort (aborts (slot scenario_N) 2)
              (filter (\<lambda>y. \<not> is_blocked scenario_N y) ([2] @ 3 # [4])) = [2, 3, 4]"
    by (simp add: scenario_N_facts)
  from abort_emission_innermost[where s=scenario_N and us="[2]" and a=3 and vs="[4]" and v=1
      and w=2 and k=0 and C="?C", THEN conjunct2, THEN conjunct2, THEN conjunct1, unfolded f u2]
    wf t1 t2 h
  have 3: "\<exists>r s'. invoke 3 ?C 1 scenario_N =
          Inr ([outcome (slot scenario_N) 1 2, outcome (slot scenario_N) 1 3], r, s')
        \<and> (\<exists>r' s''. invoke 3 ?C 2 s' =
              Inr (map (outcome (slot scenario_N) 2) [2, 3, 4], r', s''))"
    by (simp add: scenario_N_facts) blast
  have hN: "sig_wf scenario_N [2, 3, 4]" "2 \<noteq> tail scenario_N" "is_connected scenario_N 2"
    "\<not> is_blocked scenario_N 2" "slot scenario_N 2 = Some ?sN" "\<not> emission_aborted scenario_N"
    using sig_wf_connected[OF scenario_N_facts(1), of 2] by (simp_all add: scenario_N_facts)
  from scenario_N_reenter obtain t2 where
    r: "run_actions 3 ?C [Invoke 1] (call_state 2 0 scenario_N) = Inr (False, t2)"
    by (cases "run_actions 3 ?C [Invoke 1] (call_state 2 0 scenario_N)") auto
  from abort_emission_innermost[where t=scenario_N and ys="[2, 3, 4]" and c=2 and sl="?sN" and v=0
      and m=3 and C="?C" and thrown=False and ?t2.0=t2 and acc="?nil",
      THEN conjunct2, THEN conjunct2, THEN conjunct2, THEN conjunct2] hN r
  have 5: "invoke_loop (Suc 3) ?C 0 (Some 2) ?nil scenario_N =
           invoke_loop 3 ?C 0 (c_next t2 2) (feed ?C [(2, Some 0)] ?nil)
            (t2\<lparr>current_connection := current_connection scenario_N\<rparr>)"
    by simp
  show ?thesis using hE(1-5) 1 wf t1 h(2,3) 3 hN(2-6) r 5 by (simp add: scenario_N_facts)
qed

text \<open>
  The claim C4 as stated fails in Scenario E: the second slot stays connected and is not
  blocked, and the next emission does not call it, because the first slot aborts again.
\<close>

theorem abort_skipped_counterexample:
  "invoke 2 default_collector 1 scenario_E =
     Inr ([(2, Some 1)], Inr (Some 1), scenario_E\<lparr>trace := trace scenario_E @ [Called 2 1]\<rparr>)
   \<and> connection_is_connected (Some 3) (scenario_E\<lparr>trace := trace scenario_E @ [Called 2 1]\<rparr>)
   \<and> \<not> connection_is_blocked (Some 3) (scenario_E\<lparr>trace := trace scenario_E @ [Called 2 1]\<rparr>)
   \<and> invoke 2 default_collector 2 (scenario_E\<lparr>trace := trace scenario_E @ [Called 2 1]\<rparr>) =
     Inr ([(2, Some 2)], Inr (Some 2),
          scenario_E\<lparr>trace := trace scenario_E @ [Called 2 1, Called 2 2]\<rparr>)"
proof -
  let ?C = "default_collector :: (int, int option, int option) collector"
  let ?s1 = "scenario_E\<lparr>trace := trace scenario_E @ [Called 2 1]\<rparr>"
  have wf1: "sig_wf ?s1 [2, 3]"
    using scenario_E_facts(1) by (subst sig_wf_cong[of ?s1 scenario_E]) simp_all
  have t1: "tame (slot ?s1) v [2, 3]" for v using scenario_E_facts(2)[of v] by simp
  have f: "length [2 :: addr, 3] + 0 = 2" by simp
  have 1: "invoke 2 ?C 1 scenario_E = Inr ([(2, Some 1)], Inr (Some 1), ?s1)"
    unfolding invoke_tame[OF scenario_E_facts(1,2), where n=0 and C="?C" and v=1, unfolded f]
    by (simp add: scenario_E_facts raised_def collect_default)
  have 2: "invoke 2 ?C 2 ?s1 = Inr ([(2, Some 2)], Inr (Some 2),
          scenario_E\<lparr>trace := trace scenario_E @ [Called 2 1, Called 2 2]\<rparr>)"
    unfolding invoke_tame[OF wf1 t1, where n=0 and C="?C" and v=2, unfolded f]
    by (simp add: scenario_E_facts raised_def collect_default)
  have 3: "connection_is_connected (Some 3) ?s1"
    using sig_wf_connected[OF wf1, of 3] by (simp add: connection_is_connected_def)
  have 4: "\<not> connection_is_blocked (Some 3) ?s1"
    by (simp add: connection_is_blocked_def scenario_E_facts)
  show ?thesis using 1 2 3 4 by blast
qed

section \<open>A slot that disconnects itself\<close>

lemma scenario_R_twice:
  "invoke 3 default_collector 0 scenario_R = Inr ([(2, Some 0)], Inr (Some 0), scenario_R1)"
  "trace scenario_R1 = trace scenario_R @ [Called 2 0, Called 2 1]"
  "\<not> connection_is_connected (Some 2) scenario_R1"
  by (simp_all add: scenario_R1_def scenario_R_def scenario_eval numeral_nat)

lemma scenario_D_facts:
  "sig_wf scenario_D [2]" "slot scenario_D 2 = Some (Slot (\<lambda>x. [DisconnectCurrent]) (\<lambda>x. x))"
  "\<not> is_blocked scenario_D 2" "tail scenario_D = 1" "brk scenario_D = 3"
  using connect_all_wf[OF new_signal_wf, of "[Slot (\<lambda>x. [DisconnectCurrent]) (\<lambda>x. x)]"]
  by (simp_all add: scenario_D_def same_thread_def)

lemma scenario_D_loop:
  "map_sum id fst (invoke_loop (Suc 1) default_collector 1 (Some 2) (False, None, []) scenario_D)
     = Inr (False, Some 1, [(2, Some 1)])"
  by (simp add: scenario_D_def scenario_eval numeral_nat)

lemma disconnect_total:
  assumes wf: "sig_wf s xs" and t: "a \<noteq> tail s"
  shows "\<exists>s1. connection_disconnect (Some a) s = Inr (None, s1)"
proof (cases "a \<in> set xs")
  case True
  then obtain us vs where "xs = us @ a # vs" by (meson split_list)
  from disconnect_live[OF wf[unfolded this]] show ?thesis
    by (auto simp: connection_disconnect_def)
next
  case False
  then have "\<not> is_connected s a" using t unfolding is_connected_iff[OF wf] by simp
  then show ?thesis by (simp add: connection_disconnect_def disconnect_dead)
qed

text \<open>
  C3 (amended).  \<^verbatim>\<open>disconnect\<close> on a handle returns, resets the handle and leaves its node
  disconnected, for every handle of that node, in a state that is well formed again.  From
  a well-formed state in which a node is disconnected, no sequence of library calls
  (emissions with any slots among them) and no remainder of an emission in progress makes
  it connected, and none calls its slot.  So when the body of a slot reaches a
  \<^verbatim>\<open>disconnect\<close> on the current connection, the node is disconnected when the emission
  returns, and from that \<^verbatim>\<open>disconnect\<close> on nothing calls the slot: not the rest of its body,
  nor the rest of the emission.
\<close>

theorem disconnect_is_permanent:
  assumes wf: "sig_wf s xs" and a: "a < brk s"
  shows "(a \<noteq> tail s \<longrightarrow> (\<exists>s1. connection_disconnect (Some a) s = Inr (None, s1)))
       \<and> (connection_disconnect (Some a) s = Inr (c', s1) \<longrightarrow>
            c' = None \<and> \<not> connection_is_connected c' s1 \<and> \<not> connection_is_connected (Some a) s1
            \<and> (\<exists>xs1. sig_wf s1 xs1) \<and> brk s1 = brk s)
       \<and> (\<not> connection_is_connected (Some a) s \<longrightarrow>
            (run_actions n C prog s = Inr (thrown, s2) \<longrightarrow>
               \<not> connection_is_connected (Some a) s2
               \<and> (\<forall>v. Called a v \<notin> set (drop (length (trace s)) (trace s2))))
          \<and> (invoke_loop m C v cur acc s = Inr (acc', s3) \<longrightarrow>
               \<not> connection_is_connected (Some a) s3
               \<and> (\<forall>v. Called a v \<notin> set (drop (length (trace s)) (trace s3)))))
       \<and> (a \<noteq> tail s \<and> connection_is_connected (Some a) s \<and> \<not> is_blocked s a \<and> slot s a = Some sl
            \<and> body sl v = pre @ DisconnectCurrent # post
            \<and> run_actions k C pre (call_state a v s) = Inr (False, s4)
            \<and> invoke_loop (Suc k) C v (Some a) acc s = Inr (acc', s5) \<longrightarrow>
            \<not> connection_is_connected (Some a) s5
            \<and> (\<forall>w. Called a w \<notin> set (drop (length (trace s4)) (trace s5))))"
proof -
  have p0: "\<exists>s1. connection_disconnect (Some a) s = Inr (None, s1)" if "a \<noteq> tail s"
    using wf that by (rule disconnect_total)
  have p1: "c' = None \<and> \<not> connection_is_connected c' s1 \<and> \<not> connection_is_connected (Some a) s1
            \<and> (\<exists>xs1. sig_wf s1 xs1) \<and> brk s1 = brk s"
    if d: "connection_disconnect (Some a) s = Inr (c', s1)"
  proof -
    from d have c': "c' = None" and d': "disconnect a s = Inr s1"
      by (auto simp: connection_disconnect_def split: sum.splits)
    from disconnect_wf[OF wf d'] have wf1: "sig_wf s1 (removeAll a xs)" and b: "brk s1 = brk s"
      and st: "same_thread s s1" by simp_all
    have "a \<noteq> tail s"
    proof
      assume "a = tail s"
      then have "disconnect a s = Inl NullPointer"
        using wf links_prev_last[of "c_next s" "c_prev s" "head s" xs "tail s"]
        by (simp add: disconnect_def sig_wf_def)
      with d' show False by simp
    qed
    then have "\<not> is_connected s1 a"
      using st unfolding is_connected_iff[OF wf1] by (simp add: same_thread_def)
    then show ?thesis using c' wf1 b by (auto simp: connection_is_connected_def)
  qed
  have p2: "\<not> connection_is_connected (Some a) s2
               \<and> (\<forall>v. Called a v \<notin> set (drop (length (trace s)) (trace s2)))"
    if "\<not> connection_is_connected (Some a) s" "run_actions n C prog s = Inr (thrown, s2)"
    using evolves_disconnected[OF interp_evolves(3)[OF wf that(2)] a] that(1)
    by (simp add: connection_is_connected_def)
  have p3: "\<not> connection_is_connected (Some a) s3
               \<and> (\<forall>v. Called a v \<notin> set (drop (length (trace s)) (trace s3)))"
    if "\<not> connection_is_connected (Some a) s" "invoke_loop m C v cur acc s = Inr (acc', s3)"
    using evolves_disconnected[OF interp_evolves(1)[OF wf that(2)] a] that(1)
    by (simp add: connection_is_connected_def)
  have p4: "\<not> connection_is_connected (Some a) s5
            \<and> (\<forall>w. Called a w \<notin> set (drop (length (trace s4)) (trace s5)))"
    if "a \<noteq> tail s" "connection_is_connected (Some a) s" "\<not> is_blocked s a" "slot s a = Some sl"
      "body sl v = pre @ DisconnectCurrent # post"
      "run_actions k C pre (call_state a v s) = Inr (False, s4)"
      "invoke_loop (Suc k) C v (Some a) acc s = Inr (acc', s5)"
    using self_disconnect[OF wf that(1) _ that(3-7)] that(2)
    by (simp add: connection_is_connected_def)
  show ?thesis using p0 p1 p2 p3 p4 by blast
qed

theorem disconnect_is_permanent_witness:
  "sig_wf scenario_T [2, 3, 4] \<and> 3 < brk scenario_T \<and> 3 \<noteq> tail scenario_T
   \<and> connection_is_connected (Some 3) scenario_T
   \<and> connection_disconnect (Some 3) scenario_T = Inr (None, scenario_T3)
   \<and> \<not> connection_is_connected (Some 3) scenario_T3
   \<and> sig_wf scenario_T3 [2, 4] \<and> 3 < brk scenario_T3
   \<and> (\<exists>s2. run_actions 2 default_collector [Invoke 5] scenario_T3 = Inr (False, s2)
         \<and> \<not> connection_is_connected (Some 3) s2
         \<and> Called 3 5 \<notin> set (drop (length (trace scenario_T3)) (trace s2)))
   \<and> sig_wf scenario_D [2] \<and> 2 < brk scenario_D \<and> 2 \<noteq> tail scenario_D
   \<and> connection_is_connected (Some 2) scenario_D \<and> \<not> is_blocked scenario_D 2
   \<and> slot scenario_D 2 = Some (Slot (\<lambda>x. [DisconnectCurrent]) (\<lambda>x. x))
   \<and> (\<exists>acc' s5. invoke_loop (Suc 1) default_collector 1 (Some 2) (False, None, []) scenario_D
                   = Inr (acc', s5)
         \<and> \<not> connection_is_connected (Some 2) s5
         \<and> Called 2 1 \<notin> set (drop (length (trace (call_state 2 1 scenario_D))) (trace s5)))"
proof -
  let ?C = "default_collector :: (int, int option, int option) collector"
  let ?nil = "(False, None, []) :: bool \<times> int option \<times> calls"
  let ?sD = "Slot (\<lambda>x. [DisconnectCurrent]) (\<lambda>x. x)"
  have wf: "sig_wf scenario_T [2, 3, 4]" and b: "3 < brk scenario_T" and nt: "3 \<noteq> tail scenario_T"
    by (simp_all add: scenario_T_facts scenario_T_brk scenario_T_slots)
  have con: "connection_is_connected (Some 3) scenario_T"
    using sig_wf_connected[OF wf, of 3] by (simp add: connection_is_connected_def)
  have d: "connection_disconnect (Some 3) scenario_T = Inr (None, scenario_T3)"
    by (simp add: connection_disconnect_def scenario_T3_facts)
  have wf3: "sig_wf scenario_T3 [2, 4]" and b3: "3 < brk scenario_T3"
    by (simp_all add: scenario_T3_facts)
  from disconnect_is_permanent[OF wf b, where c'=None and ?s1.0=scenario_T3] d
  have nc: "\<not> connection_is_connected (Some 3) scenario_T3" by blast
  have t: "tame (slot scenario_T3) v [2, 4]" for v
    using scenario_T_facts(2)[of v] by (simp add: scenario_T3_facts tame_def)
  have na: "\<forall>y\<in>set [2, 4]. \<not> aborts (slot scenario_T3) v y" for v
    by (simp add: scenario_T3_facts scenario_T_facts)
  have f: "length [2 :: addr, 4] + 0 = 2" by simp
  have "\<exists>r s5. invoke 2 ?C 5 scenario_T3 = Inr ([(2, Some 6), (4, Some 10)], Inr r, s5)"
    unfolding invoke_tame_no_abort[OF wf3 t na, where k=0, unfolded f]
    by (simp add: scenario_T3_facts scenario_T_facts)
  then obtain r5 s5 where i5: "invoke 2 ?C 5 scenario_T3 = Inr ([(2, Some 6), (4, Some 10)], Inr r5, s5)"
    by blast
  have r: "run_actions 2 ?C [Invoke 5] scenario_T3 = Inr (False, s5)"
    by (simp add: i5)
  from disconnect_is_permanent[OF wf3 b3, where n=2 and C="?C" and prog="[Invoke 5]"
      and thrown=False and ?s2.0=s5] nc r
  have 2: "\<exists>s2. run_actions 2 ?C [Invoke 5] scenario_T3 = Inr (False, s2)
         \<and> \<not> connection_is_connected (Some 3) s2
         \<and> Called 3 5 \<notin> set (drop (length (trace scenario_T3)) (trace s2))"
    by blast
  have hD: "sig_wf scenario_D [2]" "2 < brk scenario_D" "2 \<noteq> tail scenario_D"
    "connection_is_connected (Some 2) scenario_D" "\<not> is_blocked scenario_D 2"
    "slot scenario_D 2 = Some ?sD"
    using sig_wf_connected[OF scenario_D_facts(1), of 2]
    by (simp_all add: scenario_D_facts connection_is_connected_def)
  from scenario_D_loop obtain acc' s6 where
    l: "invoke_loop (Suc 1) ?C 1 (Some 2) ?nil scenario_D = Inr (acc', s6)"
    by (cases "invoke_loop (Suc 1) ?C 1 (Some 2) ?nil scenario_D") auto
  have rD: "body ?sD 1 = [] @ DisconnectCurrent # []"
    "run_actions 1 ?C [] (call_state 2 1 scenario_D) = Inr (False, call_state 2 1 scenario_D)"
    by simp_all
  from disconnect_is_permanent[OF hD(1,2), where sl="?sD" and v=1 and pre="[]" and post="[]"
      and k=1 and C="?C" and ?s4.0="call_state 2 1 scenario_D" and acc="?nil" and acc'=acc'
      and ?s5.0=s6] hD(3-6) rD l
  have 4: "\<exists>acc' s5. invoke_loop (Suc 1) ?C 1 (Some 2) ?nil scenario_D = Inr (acc', s5)
         \<and> \<not> connection_is_connected (Some 2) s5
         \<and> Called 2 1 \<notin> set (drop (length (trace (call_state 2 1 scenario_D))) (trace s5))"
    by blast
  show ?thesis using wf b nt con d nc wf3 b3 2 hD 4 by blast
qed

text \<open>
  The claim C3 as stated fails for a slot that invokes the signal before it disconnects
  itself: the emission with 0 calls the slot, the slot's nested emission with 1 calls it
  again, and then it disconnects itself.
\<close>

theorem self_disconnect_twice_counterexample:
  "invoke 3 default_collector 0 scenario_R = Inr ([(2, Some 0)], Inr (Some 0), scenario_R1)
   \<and> trace scenario_R1 = trace scenario_R @ [Called 2 0, Called 2 1]
   \<and> \<not> connection_is_connected (Some 2) scenario_R1"
  using scenario_R_twice by blast

section \<open>Connecting a slot during an emission\<close>

lemma outcome_cong: "S' a = S a \<Longrightarrow> outcome S' v a = outcome S v a"
  by (cases "S a") (simp_all add: outcome_def throws_def slot_effect_def)






lemma feed_calls: "snd (snd (feed C new acc)) = snd (snd acc) @ new"
  by (cases acc) (simp add: feed_def)








end
